theory Spec2Isabelle
  imports Complex_Main "HOL-Library.Word" "HOL-Library.Multiset"
begin

section \<open>HeavyKeeper: the data model\<close>

text \<open>
  The sketch of package \<open>topk\<close>, in the variant with \<open>Sample\<close>, \<open>TopInto\<close> and
  \<open>DecayAll\<close>: a flat \<open>depth * width\<close> array of buckets and a fixed-length min-heap
  of flow counts.

  Conventions of the embedding.
  \<^item> \<open>uint32\<close> is \<open>32 word\<close>: \<open>+\<close> and \<open>-\<close> wrap, \<open><\<close> is unsigned.
  \<^item> Go's \<open>int\<close> is used for sizes and indexes only; it is a \<open>nat\<close> (an \<open>int\<close>
    where the source can return \<open>-1\<close>, and for the argument \<open>K\<close>), taken as 64 bits
    wide. \<open>make\<close> is taken to succeed: the limits of the allocator are not modelled,
    and the dimensions of the sketch are stated for \<open>K\<close> up to \<open>2 ^ 32\<close>.
  \<^item> \<open>float64\<close> is modelled by the real number a finite float denotes; infinities
    and NaN are outside the model. The operations whose rounding reaches a result are
    rounded as IEEE 754 rounds them, to the nearest \<open>float64\<close> with ties to even
    (\<open>f64\<close>): the conversion \<open>float64(k)\<close> and the product of \<open>New\<close>, the
    subtraction and the products of \<open>DecayAll\<close>. The conversion of a \<open>uint32\<close> to
    \<open>float64\<close> is exact. \<open>math.Log\<close> is a library function whose result is close
    to the logarithm and need not be the nearest \<open>float64\<close>: it is the argument
    \<open>Log\<close> of \<open>New\<close>. The threshold \<open>math.Pow(decay, count)\<close> of \<open>Sample\<close>, which
    is only compared with a draw, is the exact power.
  \<^item> A panic is an error value; every function that can index out of range or divide
    by zero returns \<open>error + 'a\<close>.
  \<^item> The hash \<open>xxhash.ChecksumString32S\<close> is an external library: every function
    that hashes takes it as its first argument \<open>H\<close>.
  \<^item> \<open>rand.Float64\<close> reads global state: the sequence of values it is going to
    return is an argument \<open>rnd\<close>, and the number of draws taken so far is threaded
    through as \<open>pos\<close>.
\<close>

type_synonym uint32 = "32 word"
type_synonym float64 = real
type_synonym hash32 = "string \<Rightarrow> uint32 \<Rightarrow> uint32"
type_synonym rand = "nat \<Rightarrow> float64"

datatype error = InvalidArgument string | RuntimeError string

record bucket =
  fingerprint :: uint32
  count :: uint32

record FlowCount =
  Flow :: string
  Count :: uint32

record HeavyKeeper =
  decay :: float64
  depth :: nat
  width :: nat
  buckets :: "bucket list"
  heap :: "FlowCount list"

text \<open>The zero values \<open>bucket{}\<close> and \<open>FlowCount{}\<close>.\<close>

definition bucket0 :: bucket where
  "bucket0 = \<lparr>fingerprint = 0, count = 0\<rparr>"

definition FlowCount0 :: FlowCount where
  "FlowCount0 = \<lparr>Flow = [], Count = 0\<rparr>"

section \<open>\<open>float64\<close> arithmetic\<close>

text \<open>
  Rounding a real number to the nearest \<open>float64\<close>, ties to even, as the hardware
  rounds the exact result of an operation. \<open>ilog2 n\<close> is the position of the leading
  bit of \<open>n\<close>, \<open>pow2 e\<close> is \<open>2 ^ e\<close> for an integer \<open>e\<close>, and \<open>exponent x\<close>, for a
  positive \<open>x\<close>, is the \<open>e\<close> with \<open>2 ^ e \<le> x < 2 ^ (e + 1)\<close>. The floats around
  \<open>x\<close> are the multiples of \<open>2 ^ quantum x\<close>: 53 significant bits, and the fixed
  spacing \<open>2 ^ - 1074\<close> of the subnormal range. \<open>f64 x\<close> is the nearest of them. A
  value beyond the largest \<open>float64\<close>, which the hardware rounds to an infinity, does
  not occur in what follows.
\<close>

fun ilog2 :: "nat \<Rightarrow> nat" where
  "ilog2 n = (if n < 2 then 0 else Suc (ilog2 (n div 2)))"

declare ilog2.simps [simp del]

definition pow2 :: "int \<Rightarrow> real" where
  "pow2 e = (if 0 \<le> e then 2 ^ nat e else 1 / 2 ^ nat (- e))"

definition exponent :: "real \<Rightarrow> int" where
  "exponent x =
     (if 1 \<le> x then int (ilog2 (nat \<lfloor>x\<rfloor>))
      else (let k = int (ilog2 (nat \<lfloor>1 / x\<rfloor>)) in if x * pow2 k = 1 then - k else - k - 1))"

definition round_even :: "real \<Rightarrow> int" where
  "round_even x =
     (let n = \<lfloor>x\<rfloor>; r = x - of_int n in
      if r < 1 / 2 then n else if 1 / 2 < r then n + 1 else if even n then n else n + 1)"

definition quantum :: "real \<Rightarrow> int" where
  "quantum x = max (exponent \<bar>x\<bar> - 52) (- 1074)"

definition f64 :: "real \<Rightarrow> float64" where
  "f64 x =
     (if x = 0 then 0
      else let q = quantum x in of_int (round_even (x / pow2 q)) * pow2 q)"

section \<open>Construction\<close>

text \<open>\<open>int(x)\<close> and \<open>uint32(x)\<close> on a float: truncation toward zero.\<close>

definition trunc :: "float64 \<Rightarrow> int" where
  "trunc x = (if 0 \<le> x then \<lfloor>x\<rfloor> else \<lceil>x\<rceil>)"

text \<open>
  \<open>New\<close>, with \<open>math.Log\<close> as its first argument. \<open>float64(k)\<close> rounds, and so does
  the product; \<open>int(...)\<close> truncates.
\<close>

definition New :: "(float64 \<Rightarrow> float64) \<Rightarrow> int \<Rightarrow> float64 \<Rightarrow> error + HeavyKeeper" where
  "New Log k dec =
     (if k < 1 then Inl (InvalidArgument ''k must be >= 1'')
      else if dec \<le> 0 \<or> dec > 1 then Inl (InvalidArgument ''decay must be in range (0, 1.0]'')
      else
        let kf = f64 (real_of_int k);
            w0 = trunc (f64 (kf * Log kf));
            w = (if w0 < 256 then 256 else w0);
            d0 = trunc (Log kf);
            d = (if d0 < 3 then 3 else d0)
        in Inr \<lparr>decay = dec, depth = nat d, width = nat w,
                 buckets = replicate (nat d * nat w) bucket0,
                 heap = replicate (nat k) FlowCount0\<rparr>)"

text \<open>
  What is assumed of \<open>math.Log\<close> at an argument, where a result depends on it: a
  relative error of at most \<open>2 ^ - 50\<close>, which is four units in the last place or
  more. \<open>Log_rn\<close>, the logarithm rounded to the nearest \<open>float64\<close>, is the
  instance used to evaluate examples.
\<close>

definition Log_near :: "(float64 \<Rightarrow> float64) \<Rightarrow> float64 \<Rightarrow> bool" where
  "Log_near Log x \<longleftrightarrow> \<bar>Log x - ln x\<bar> \<le> ln x / 2 ^ 50"

definition Log_rn :: "float64 \<Rightarrow> float64" where
  "Log_rn x = f64 (ln x)"

section \<open>The min-heap and \<open>container/heap\<close>\<close>

definition Less :: "FlowCount list \<Rightarrow> nat \<Rightarrow> nat \<Rightarrow> bool" where
  "Less h i j = (Count (h ! i) < Count (h ! j))"

definition Swap :: "FlowCount list \<Rightarrow> nat \<Rightarrow> nat \<Rightarrow> FlowCount list" where
  "Swap h i j = h[i := h ! j, j := h ! i]"

text \<open>\<open>Min\<close> reads \<open>h[0]\<close> and panics on an empty heap.\<close>

definition Min_heap :: "FlowCount list \<Rightarrow> error + uint32" where
  "Min_heap h = (case h of [] \<Rightarrow> Inl (RuntimeError ''index out of range'') | e # _ \<Rightarrow> Inr (Count e))"

text \<open>\<open>Find\<close>: the index of the first entry with the flow, or \<open>-1\<close>.\<close>

fun Find_from :: "FlowCount list \<Rightarrow> string \<Rightarrow> int \<Rightarrow> int" where
  "Find_from [] flow i = -1"
| "Find_from (e # es) flow i = (if Flow e = flow then i else Find_from es flow (i + 1))"

definition Find :: "FlowCount list \<Rightarrow> string \<Rightarrow> int" where
  "Find h flow = Find_from h flow 0"

text \<open>
  \<open>heap.Fix\<close>, \<open>up\<close> and \<open>down\<close> of Go's \<open>container/heap\<close>, instantiated with
  \<open>Less\<close> and \<open>Swap\<close> of \<open>minHeap\<close>. In \<open>up\<close> the parent of \<open>j\<close> is
  \<open>(j - 1) / 2\<close> with Go's truncating division, which is \<open>0\<close> for \<open>j = 0\<close>, as
  the truncating subtraction of \<open>nat\<close> gives. The test \<open>j1 < 0\<close> of \<open>down\<close>, for an
  overflow of \<open>2*i + 1\<close>, has no counterpart on \<open>nat\<close>. \<open>down_loop\<close> returns the
  heap and the last value of \<open>i\<close>.
\<close>

function up :: "FlowCount list \<Rightarrow> nat \<Rightarrow> FlowCount list" where
  "up h j =
     (let i = (j - 1) div 2 in
      if i = j \<or> \<not> Less h j i then h else up (Swap h i j) i)"
  by pat_completeness auto
termination
  by (relation "measure (\<lambda>(h, j). j)") auto

declare up.simps [simp del]

function down_loop :: "FlowCount list \<Rightarrow> nat \<Rightarrow> nat \<Rightarrow> FlowCount list \<times> nat" where
  "down_loop h i n =
     (let j1 = 2 * i + 1 in
      if j1 \<ge> n then (h, i)
      else
        let j = (if j1 + 1 < n \<and> Less h (j1 + 1) j1 then j1 + 1 else j1) in
        if \<not> Less h j i then (h, i)
        else down_loop (Swap h i j) j n)"
  by pat_completeness auto
termination
  by (relation "measure (\<lambda>(h, i, n). n - i)") auto

declare down_loop.simps [simp del]

definition down :: "FlowCount list \<Rightarrow> nat \<Rightarrow> nat \<Rightarrow> FlowCount list \<times> bool" where
  "down h i0 n = (case down_loop h i0 n of (h', i) \<Rightarrow> (h', i > i0))"

definition Fix :: "FlowCount list \<Rightarrow> nat \<Rightarrow> FlowCount list" where
  "Fix h i = (case down h i (length h) of (h', moved) \<Rightarrow> if \<not> moved then up h' i else h')"

section \<open>Sample\<close>

definition fingerprint_of :: "hash32 \<Rightarrow> string \<Rightarrow> uint32" where
  "fingerprint_of H flow = H flow (-1)"

text \<open>\<open>slot\<close>: the \<open>%\<close> panics when \<open>width\<close> is zero.\<close>

definition slot :: "hash32 \<Rightarrow> string \<Rightarrow> uint32 \<Rightarrow> uint32 \<Rightarrow> error + uint32" where
  "slot H flow row w =
     (if w = 0 then Inl (RuntimeError ''integer divide by zero'') else Inr (H flow row mod w))"

definition max_u32 :: "uint32 \<Rightarrow> uint32 \<Rightarrow> uint32" where
  "max_u32 a b = (if a < b then b else a)"

text \<open>
  The inner loop of the third branch, on the cell \<open>buckets[j]\<close>:
  \<open>for localIncr := incr; localIncr > 0; localIncr-- { ... }\<close>.
  It returns the cell, \<open>maxCount\<close> and the number of draws taken.
  \<open>math.Pow(decay, float64(count))\<close> has a natural number as exponent.
\<close>

function decay_loop ::
  "float64 \<Rightarrow> uint32 \<Rightarrow> rand \<Rightarrow> bucket \<Rightarrow> uint32 \<Rightarrow> uint32 \<Rightarrow> nat \<Rightarrow> bucket \<times> uint32 \<times> nat" where
  "decay_loop dec fp rnd b localIncr maxCount pos =
     (if localIncr > 0 then
        (if rnd pos < dec ^ unat (count b) then
           (let b1 = b\<lparr>count := count b - 1\<rparr> in
            if count b1 \<le> 0
            then (b1\<lparr>fingerprint := fp, count := localIncr\<rparr>, max_u32 maxCount localIncr, pos + 1)
            else decay_loop dec fp rnd b1 (localIncr - 1) maxCount (pos + 1))
         else decay_loop dec fp rnd b (localIncr - 1) maxCount (pos + 1))
      else (b, maxCount, pos))"
  by pat_completeness auto
termination
  by (relation "measure (\<lambda>(dec, fp, rnd, b, localIncr, maxCount, pos). unat localIncr)")
     (auto simp: unat_minus_one word_greater_zero_iff unat_gt_0)

declare decay_loop.simps [simp del]

text \<open>One iteration of the loop over the rows: the three branches on \<open>buckets[j]\<close>.\<close>

definition sample_cell ::
  "float64 \<Rightarrow> uint32 \<Rightarrow> rand \<Rightarrow> bucket \<Rightarrow> uint32 \<Rightarrow> uint32 \<Rightarrow> nat \<Rightarrow> bucket \<times> uint32 \<times> nat" where
  "sample_cell dec fp rnd b incr maxCount pos =
     (if count b = 0 then (b\<lparr>fingerprint := fp, count := incr\<rparr>, max_u32 maxCount incr, pos)
      else if fingerprint b = fp then
        (let b' = b\<lparr>count := count b + incr\<rparr> in (b', max_u32 maxCount (count b'), pos))
      else decay_loop dec fp rnd b incr maxCount pos)"

function sample_rows ::
  "hash32 \<Rightarrow> HeavyKeeper \<Rightarrow> string \<Rightarrow> uint32 \<Rightarrow> uint32 \<Rightarrow> rand \<Rightarrow>
   nat \<Rightarrow> bucket list \<Rightarrow> uint32 \<Rightarrow> nat \<Rightarrow> error + (bucket list \<times> uint32 \<times> nat)" where
  "sample_rows H hk flow fp incr rnd i bs maxCount pos =
     (if i < depth hk then
        (case slot H flow (of_nat i) (of_nat (width hk)) of
           Inl e \<Rightarrow> Inl e
         | Inr s \<Rightarrow>
            (let j = unat s + i * width hk in
             if j \<ge> length bs then Inl (RuntimeError ''index out of range'')
             else
               (case sample_cell (decay hk) fp rnd (bs ! j) incr maxCount pos of
                  (b', maxCount', pos') \<Rightarrow>
                    sample_rows H hk flow fp incr rnd (i + 1) (bs[j := b']) maxCount' pos')))
      else Inr (bs, maxCount, pos))"
  by pat_completeness auto
termination
  by (relation "measure (\<lambda>(H, hk, flow, fp, incr, rnd, i, bs, maxCount, pos). depth hk - i)") auto

declare sample_rows.simps [simp del]

text \<open>
  \<open>Sample\<close> returns the admission flag, the sketch and the number of draws taken.
\<close>

definition Sample ::
  "hash32 \<Rightarrow> HeavyKeeper \<Rightarrow> string \<Rightarrow> uint32 \<Rightarrow> rand \<Rightarrow> nat \<Rightarrow> error + (bool \<times> HeavyKeeper \<times> nat)" where
  "Sample H hk flow incr rnd pos =
     (let fp = fingerprint_of H flow in
      case Min_heap (heap hk) of
        Inl e \<Rightarrow> Inl e
      | Inr heapMin \<Rightarrow>
         (case sample_rows H hk flow fp incr rnd 0 (buckets hk) 0 pos of
            Inl e \<Rightarrow> Inl e
          | Inr (bs, maxCount, pos') \<Rightarrow>
             (let hk1 = hk\<lparr>buckets := bs\<rparr> in
              if maxCount \<ge> heapMin then
                (let i = Find (heap hk1) flow in
                 if i > -1 then
                   Inr (True,
                        hk1\<lparr>heap := Fix ((heap hk1)[nat i := (heap hk1 ! nat i)\<lparr>Count := maxCount\<rparr>]) (nat i)\<rparr>,
                        pos')
                 else
                   Inr (True,
                        hk1\<lparr>heap := Fix ((heap hk1)[0 := \<lparr>Flow = flow, Count = maxCount\<rparr>]) 0\<rparr>,
                        pos'))
              else Inr (False, hk1, pos'))))"

section \<open>Top, Count, DecayAll, Reset\<close>

text \<open>
  \<open>sort.Stable\<close> of Go's \<open>sort\<close> package, by its contract: the stable sort for the
  given \<open>Less\<close>. Each element goes behind the elements that are not greater.
\<close>

fun stable_insert :: "('a \<Rightarrow> 'a \<Rightarrow> bool) \<Rightarrow> 'a \<Rightarrow> 'a list \<Rightarrow> 'a list" where
  "stable_insert lt x [] = [x]"
| "stable_insert lt x (y # ys) =
     (if lt x y then x # y # ys else y # stable_insert lt x ys)"

definition sort_Stable :: "('a \<Rightarrow> 'a \<Rightarrow> bool) \<Rightarrow> 'a list \<Rightarrow> 'a list" where
  "sort_Stable lt xs = foldl (\<lambda>acc x. stable_insert lt x acc) [] xs"

text \<open>\<open>sort.Reverse(byCount(top))\<close>: \<open>Less(i, j)\<close> is \<open>top[j].Count < top[i].Count\<close>.\<close>

definition reverse_byCount :: "FlowCount \<Rightarrow> FlowCount \<Rightarrow> bool" where
  "reverse_byCount a b = (Count b < Count a)"

text \<open>The trimming loop: \<open>for ; end > 0; end-- { if top[end-1].Count > 0 { break } }\<close>.\<close>

fun trim_end :: "FlowCount list \<Rightarrow> nat \<Rightarrow> nat" where
  "trim_end tops 0 = 0"
| "trim_end tops (Suc e) = (if Count (tops ! e) > 0 then Suc e else trim_end tops e)"

text \<open>
  \<open>TopInto\<close> overwrites the caller's buffer with a copy of the heap; the sketch is only
  read, so the model returns the result alone.
\<close>

definition TopInto :: "HeavyKeeper \<Rightarrow> FlowCount list \<Rightarrow> FlowCount list" where
  "TopInto hk tops =
     (let top1 = take 0 tops @ heap hk;
          top2 = sort_Stable reverse_byCount top1
      in take (trim_end top2 (length top2)) top2)"

definition Top :: "HeavyKeeper \<Rightarrow> FlowCount list" where
  "Top hk = TopInto hk []"

fun Count_in :: "FlowCount list \<Rightarrow> string \<Rightarrow> uint32 \<times> bool" where
  "Count_in [] flow = (0, False)"
| "Count_in (hb # hs) flow = (if Flow hb = flow then (Count hb, True) else Count_in hs flow)"

definition Count_of :: "HeavyKeeper \<Rightarrow> string \<Rightarrow> uint32 \<times> bool" where
  "Count_of hk flow = Count_in (heap hk) flow"

text \<open>A loop \<open>for i := range xs { xs[i] = f(xs[i]) }\<close>, from index \<open>i\<close> on.\<close>

function for_range :: "('a \<Rightarrow> 'a) \<Rightarrow> nat \<Rightarrow> 'a list \<Rightarrow> 'a list" where
  "for_range f i xs = (if i < length xs then for_range f (i + 1) (xs[i := f (xs ! i)]) else xs)"
  by pat_completeness auto
termination
  by (relation "measure (\<lambda>(f, i, xs). length xs - i)") auto

declare for_range.simps [simp del]

definition Reset :: "HeavyKeeper \<Rightarrow> HeavyKeeper" where
  "Reset hk =
     (let bs = for_range (\<lambda>_. bucket0) 0 (buckets hk);
          h = for_range (\<lambda>_. FlowCount0) 0 (heap hk)
      in hk\<lparr>buckets := bs, heap := h\<rparr>)"

text \<open>
  \<open>uint32(float64(count) * pct)\<close>: the conversion of the count is exact, the product
  rounds, the conversion back truncates.
\<close>

definition scale_u32 :: "float64 \<Rightarrow> uint32 \<Rightarrow> uint32" where
  "scale_u32 pct c = word_of_int (trunc (f64 (real (unat c) * pct)))"

text \<open>\<open>DecayAll\<close>; the subtraction \<open>pct = 1 - pct\<close> rounds.\<close>

definition DecayAll :: "HeavyKeeper \<Rightarrow> float64 \<Rightarrow> HeavyKeeper" where
  "DecayAll hk pct =
     (if pct \<le> 0 then hk
      else if pct > 1 then Reset hk
      else
        let pct' = f64 (1 - pct);
            bs = for_range (\<lambda>b. b\<lparr>count := scale_u32 pct' (count b)\<rparr>) 0 (buckets hk);
            h = for_range (\<lambda>e. e\<lparr>Count := scale_u32 pct' (Count e)\<rparr>) 0 (heap hk)
        in hk\<lparr>buckets := bs, heap := h\<rparr>)"

text \<open>A sequence of calls of \<open>Sample\<close>, as the repository's tests make them.\<close>

fun Sample_all ::
  "hash32 \<Rightarrow> HeavyKeeper \<Rightarrow> (string \<times> uint32) list \<Rightarrow> rand \<Rightarrow> nat \<Rightarrow>
   error + (bool list \<times> HeavyKeeper \<times> nat)" where
  "Sample_all H hk [] rnd pos = Inr ([], hk, pos)"
| "Sample_all H hk ((flow, incr) # calls) rnd pos =
     (case Sample H hk flow incr rnd pos of
        Inl e \<Rightarrow> Inl e
      | Inr (adm, hk1, pos1) \<Rightarrow>
         (case Sample_all H hk1 calls rnd pos1 of
            Inl e \<Rightarrow> Inl e
          | Inr (adms, hk2, pos2) \<Rightarrow> Inr (adm # adms, hk2, pos2)))"

section \<open>The older entry point \<open>Add\<close>\<close>

text \<open>
  File \<open>topk.go\<close> holds the older variant of the sketch: the matrix is a slice of
  rows, and \<open>Add\<close> returns nothing. Its three branches on a cell are those of
  \<open>Sample\<close>, and it starts with \<open>if incr == 0 { return }\<close>.
\<close>

record HeavyKeeper_v1 =
  decay_v1 :: float64
  buckets_v1 :: "bucket list list"
  heap_v1 :: "FlowCount list"

function add_rows ::
  "hash32 \<Rightarrow> float64 \<Rightarrow> string \<Rightarrow> uint32 \<Rightarrow> uint32 \<Rightarrow> rand \<Rightarrow>
   nat \<Rightarrow> bucket list list \<Rightarrow> uint32 \<Rightarrow> nat \<Rightarrow> error + (bucket list list \<times> uint32 \<times> nat)" where
  "add_rows H dec flow fp incr rnd i rows maxCount pos =
     (if i < length rows then
        (let row = rows ! i in
         case slot H flow (of_nat i) (of_nat (length row)) of
           Inl e \<Rightarrow> Inl e
         | Inr s \<Rightarrow>
            (let j = unat s in
             if j \<ge> length row then Inl (RuntimeError ''index out of range'')
             else
               (case sample_cell dec fp rnd (row ! j) incr maxCount pos of
                  (b', maxCount', pos') \<Rightarrow>
                    add_rows H dec flow fp incr rnd (i + 1) (rows[i := row[j := b']]) maxCount' pos')))
      else Inr (rows, maxCount, pos))"
  by pat_completeness auto
termination
  by (relation "measure (\<lambda>(H, dec, flow, fp, incr, rnd, i, rows, maxCount, pos). length rows - i)") auto

declare add_rows.simps [simp del]

definition Add ::
  "hash32 \<Rightarrow> HeavyKeeper_v1 \<Rightarrow> string \<Rightarrow> uint32 \<Rightarrow> rand \<Rightarrow> nat \<Rightarrow> error + (HeavyKeeper_v1 \<times> nat)" where
  "Add H hk flow incr rnd pos =
     (if incr = 0 then Inr (hk, pos)
      else
        let fp = fingerprint_of H flow in
        case Min_heap (heap_v1 hk) of
          Inl e \<Rightarrow> Inl e
        | Inr heapMin \<Rightarrow>
           (case add_rows H (decay_v1 hk) flow fp incr rnd 0 (buckets_v1 hk) 0 pos of
              Inl e \<Rightarrow> Inl e
            | Inr (rows, maxCount, pos') \<Rightarrow>
               (let hk1 = hk\<lparr>buckets_v1 := rows\<rparr> in
                if maxCount \<ge> heapMin then
                  (let i = Find (heap_v1 hk1) flow in
                   if i > -1 then
                     Inr (hk1\<lparr>heap_v1 :=
                            Fix ((heap_v1 hk1)[nat i := (heap_v1 hk1 ! nat i)\<lparr>Count := maxCount\<rparr>]) (nat i)\<rparr>,
                          pos')
                   else
                     Inr (hk1\<lparr>heap_v1 := Fix ((heap_v1 hk1)[0 := \<lparr>Flow = flow, Count = maxCount\<rparr>]) 0\<rparr>,
                          pos'))
                else Inr (hk1, pos'))))"

section \<open>Invariants\<close>

text \<open>The heap property of \<open>container/heap\<close>: no entry is smaller than its parent.\<close>

definition heap_ok :: "FlowCount list \<Rightarrow> bool" where
  "heap_ok h = (\<forall>j < length h. 0 < j \<longrightarrow> Count (h ! ((j - 1) div 2)) \<le> Count (h ! j))"

text \<open>
  The state of the heap while \<open>heap.Fix\<close> repairs position \<open>i\<close>: every entry
  other than \<open>i\<close> and its children respects its parent, and the children of \<open>i\<close>
  respect the parent of \<open>i\<close>. What may be wrong is \<open>i\<close> against its parent
  (\<open>parent_le\<close>) and \<open>i\<close> against its children (\<open>children_ge\<close>).
\<close>

definition except_at :: "FlowCount list \<Rightarrow> nat \<Rightarrow> bool" where
  "except_at h i =
     ((\<forall>j < length h. 0 < j \<and> j \<noteq> i \<and> (j - 1) div 2 \<noteq> i \<longrightarrow>
          Count (h ! ((j - 1) div 2)) \<le> Count (h ! j)) \<and>
      (\<forall>j < length h. 0 < j \<and> 0 < i \<and> (j - 1) div 2 = i \<longrightarrow>
          Count (h ! ((i - 1) div 2)) \<le> Count (h ! j)))"

definition parent_le :: "FlowCount list \<Rightarrow> nat \<Rightarrow> bool" where
  "parent_le h i = (0 < i \<longrightarrow> Count (h ! ((i - 1) div 2)) \<le> Count (h ! i))"

definition children_ge :: "FlowCount list \<Rightarrow> nat \<Rightarrow> bool" where
  "children_ge h i =
     (\<forall>j < length h. 0 < j \<and> (j - 1) div 2 = i \<longrightarrow> Count (h ! i) \<le> Count (h ! j))"

text \<open>
  The shape of a sketch that \<open>Sample\<close> relies on: the matrix has \<open>depth * width\<close>
  cells, \<open>uint32(width)\<close> is not zero, and the heap is a non-empty min-heap.
\<close>

definition hk_ok :: "HeavyKeeper \<Rightarrow> bool" where
  "hk_ok hk =
     ((of_nat (width hk) :: uint32) \<noteq> 0 \<and> length (buckets hk) = depth hk * width hk \<and>
      heap hk \<noteq> [] \<and> heap_ok (heap hk))"

text \<open>Descending order of count, the order of \<open>Top\<close>.\<close>

abbreviation descending :: "FlowCount list \<Rightarrow> bool" where
  "descending xs \<equiv> sorted_wrt (\<lambda>a b. Count b \<le> Count a) xs"

section \<open>The matrix update in the words of the specification\<close>

text \<open>
  The cell that a row selects: \<open>hash(flow, i) mod width\<close> within row \<open>i\<close> of the
  flat array.
\<close>

definition cell_index :: "hash32 \<Rightarrow> HeavyKeeper \<Rightarrow> string \<Rightarrow> nat \<Rightarrow> nat" where
  "cell_index H hk flow i = unat (H flow (of_nat i) mod of_nat (width hk)) + i * width hk"

text \<open>
  Probabilistic decay, one unit of the increment at a time, \<open>n\<close> units remaining: a
  draw \<open>r\<close> is taken; if \<open>r < decay ^ count\<close> the count goes down by one, and when it
  reaches zero the cell is re-occupied with the fingerprint \<open>fp\<close> and the number of
  units remaining (the one of this draw included), and the row is done. The result is
  the cell, the count written for the flow (\<open>None\<close> when the occupant survived), and
  the position of the next draw.
\<close>

fun spec_decay ::
  "float64 \<Rightarrow> uint32 \<Rightarrow> rand \<Rightarrow> bucket \<Rightarrow> nat \<Rightarrow> nat \<Rightarrow> bucket \<times> uint32 option \<times> nat" where
  "spec_decay dec fp rnd b 0 pos = (b, None, pos)"
| "spec_decay dec fp rnd b (Suc n) pos =
     (if rnd pos < dec ^ unat (count b) then
        (if count b - 1 = 0
         then (\<lparr>fingerprint = fp, count = of_nat (Suc n)\<rparr>, Some (of_nat (Suc n)), pos + 1)
         else spec_decay dec fp rnd (b\<lparr>count := count b - 1\<rparr>) n (pos + 1))
      else spec_decay dec fp rnd b n (pos + 1))"

text \<open>
  The rule for one row: an empty cell is occupied with the increment; a cell with the
  flow's fingerprint gets the increment added; any other cell decays.
\<close>

definition spec_cell ::
  "float64 \<Rightarrow> uint32 \<Rightarrow> rand \<Rightarrow> bucket \<Rightarrow> uint32 \<Rightarrow> nat \<Rightarrow> bucket \<times> uint32 option \<times> nat" where
  "spec_cell dec fp rnd b incr pos =
     (if count b = 0 then (\<lparr>fingerprint = fp, count = incr\<rparr>, Some incr, pos)
      else if fingerprint b = fp
        then (\<lparr>fingerprint = fp, count = count b + incr\<rparr>, Some (count b + incr), pos)
        else spec_decay dec fp rnd b (unat incr) pos)"

text \<open>
  The rows in turn, each on its cell of the matrix as it was before the call: the list
  of the selected cell's index, its new content and the count written for the flow.
\<close>

fun spec_rows ::
  "hash32 \<Rightarrow> HeavyKeeper \<Rightarrow> string \<Rightarrow> uint32 \<Rightarrow> rand \<Rightarrow> nat list \<Rightarrow> nat \<Rightarrow>
   (nat \<times> bucket \<times> uint32 option) list \<times> nat" where
  "spec_rows H hk flow incr rnd [] pos = ([], pos)"
| "spec_rows H hk flow incr rnd (i # rows) pos =
     (let j = cell_index H hk flow i in
      case spec_cell (decay hk) (fingerprint_of H flow) rnd (buckets hk ! j) incr pos of
        (b', c, pos1) \<Rightarrow>
          (case spec_rows H hk flow incr rnd rows pos1 of
             (rs, pos2) \<Rightarrow> ((j, b', c) # rs, pos2)))"

text \<open>
  The maximum of the counts written, zero if there is none: a row whose occupant
  survived contributes nothing.
\<close>

definition spec_max :: "uint32 option list \<Rightarrow> uint32" where
  "spec_max cs = Max (set (0 # List.map_filter id cs))"

section \<open>The sizing policy in the words of the specification\<close>

text \<open>
  The specification reads \<open>width = max(256, round(K * ln K))\<close> and
  \<open>depth = max(3, round(ln K))\<close>, with rounding to the nearest integer.
\<close>

definition spec_width :: "int \<Rightarrow> int" where
  "spec_width k = max 256 (round (real_of_int k * ln (real_of_int k)))"

definition spec_depth :: "int \<Rightarrow> int" where
  "spec_depth k = max 3 (round (ln (real_of_int k)))"

section \<open>The global decay in the words of the specification\<close>

text \<open>
  The specification reads: the count multiplied by \<open>1 - fraction\<close>, truncated toward
  zero. \<open>spec_scale\<close> is this sentence on the real numbers; \<open>float_scale\<close> is the
  same with the subtraction and the product each rounded to the nearest \<open>float64\<close>.
\<close>

definition spec_scale :: "real \<Rightarrow> int \<Rightarrow> int" where
  "spec_scale p c = trunc (real_of_int c * (1 - p))"

definition float_scale :: "real \<Rightarrow> int \<Rightarrow> int" where
  "float_scale p c = trunc (f64 (real_of_int c * f64 (1 - p)))"

section \<open>Example inputs\<close>

text \<open>A stand-in for the hash, used only to evaluate examples: the sum of the bytes plus the seed.\<close>

definition example_hash :: hash32 where
  "example_hash flow seed = word_of_nat (sum_list (map of_char flow)) + seed"

text \<open>The value of \<open>New(k, 0.9)\<close> for a small \<open>k\<close>.\<close>

definition sketch_small :: "nat \<Rightarrow> HeavyKeeper" where
  "sketch_small k = \<lparr>decay = 9 / 10, depth = 3, width = 256,
                      buckets = replicate 768 bucket0, heap = replicate k FlowCount0\<rparr>"

text \<open>The values of \<open>New(1, 0.9)\<close> and \<open>New(46, 0.9)\<close>.\<close>

definition sketch1 :: HeavyKeeper where
  "sketch1 = \<lparr>decay = 9 / 10, depth = 3, width = 256,
               buckets = replicate 768 bucket0, heap = [FlowCount0]\<rparr>"

definition sketch46 :: HeavyKeeper where
  "sketch46 = \<lparr>decay = 9 / 10, depth = 3, width = 256,
                buckets = replicate 768 bucket0, heap = replicate 46 FlowCount0\<rparr>"

text \<open>
  \<open>sketch1\<close> after \<open>Sample("a", 1)\<close>, and after \<open>Sample("b", 5)\<close> on top of that,
  with \<open>example_hash\<close>: \<open>"b"\<close> has taken the only heap slot from \<open>"a"\<close>.
\<close>

definition sketch1_a :: HeavyKeeper where
  "sketch1_a = sketch1\<lparr>
     buckets := (replicate 768 bucket0)
       [97 := \<lparr>fingerprint = 96, count = 1\<rparr>,
        354 := \<lparr>fingerprint = 96, count = 1\<rparr>,
        611 := \<lparr>fingerprint = 96, count = 1\<rparr>],
     heap := [\<lparr>Flow = ''a'', Count = 1\<rparr>]\<rparr>"

definition sketch1_ab :: HeavyKeeper where
  "sketch1_ab = sketch1\<lparr>
     buckets := (replicate 768 bucket0)
       [97 := \<lparr>fingerprint = 96, count = 1\<rparr>,
        354 := \<lparr>fingerprint = 96, count = 1\<rparr>,
        611 := \<lparr>fingerprint = 96, count = 1\<rparr>,
        98 := \<lparr>fingerprint = 97, count = 5\<rparr>,
        355 := \<lparr>fingerprint = 97, count = 5\<rparr>,
        612 := \<lparr>fingerprint = 97, count = 5\<rparr>],
     heap := [\<lparr>Flow = ''b'', Count = 5\<rparr>]\<rparr>"

text \<open>\<open>sketch1\<close> after \<open>Sample("a", 0)\<close> with \<open>example_hash\<close>.\<close>

definition sketch1_a0 :: HeavyKeeper where
  "sketch1_a0 = sketch1\<lparr>
     buckets := (replicate 768 bucket0)
       [97 := \<lparr>fingerprint = 96, count = 0\<rparr>,
        354 := \<lparr>fingerprint = 96, count = 0\<rparr>,
        611 := \<lparr>fingerprint = 96, count = 0\<rparr>],
     heap := [\<lparr>Flow = ''a'', Count = 0\<rparr>]\<rparr>"

text \<open>
  The sketch of the repository's test \<open>TestSample_returnValue\<close> (\<open>K = 2\<close>) after
  three samples of \<open>"a"\<close> and two of \<open>"b"\<close>, with \<open>example_hash\<close>.
\<close>

definition sketch2_ab :: HeavyKeeper where
  "sketch2_ab = \<lparr>decay = 9 / 10, depth = 3, width = 256,
     buckets = (replicate 768 bucket0)
       [97 := \<lparr>fingerprint = 96, count = 3\<rparr>,
        354 := \<lparr>fingerprint = 96, count = 3\<rparr>,
        611 := \<lparr>fingerprint = 96, count = 3\<rparr>,
        98 := \<lparr>fingerprint = 97, count = 2\<rparr>,
        355 := \<lparr>fingerprint = 97, count = 2\<rparr>,
        612 := \<lparr>fingerprint = 97, count = 2\<rparr>],
     heap = [\<lparr>Flow = ''b'', Count = 2\<rparr>, \<lparr>Flow = ''a'', Count = 3\<rparr>]\<rparr>"

text \<open>
  \<open>sketch2_ab\<close> after a further \<open>Sample("c", 1)\<close> (rejected), after a further
  \<open>Sample("a", 1)\<close> (updated in place), and after two \<open>Sample("c", 1)\<close> (the second
  one takes the root from \<open>"b"\<close>).
\<close>

definition sketch2_abc :: HeavyKeeper where
  "sketch2_abc = sketch2_ab\<lparr>buckets := (buckets sketch2_ab)
       [99 := \<lparr>fingerprint = 98, count = 1\<rparr>,
        356 := \<lparr>fingerprint = 98, count = 1\<rparr>,
        613 := \<lparr>fingerprint = 98, count = 1\<rparr>]\<rparr>"

definition sketch2_aab :: HeavyKeeper where
  "sketch2_aab = sketch2_ab\<lparr>buckets := (buckets sketch2_ab)
       [97 := \<lparr>fingerprint = 96, count = 4\<rparr>,
        354 := \<lparr>fingerprint = 96, count = 4\<rparr>,
        611 := \<lparr>fingerprint = 96, count = 4\<rparr>],
     heap := [\<lparr>Flow = ''b'', Count = 2\<rparr>, \<lparr>Flow = ''a'', Count = 4\<rparr>]\<rparr>"

definition sketch2_abcc :: HeavyKeeper where
  "sketch2_abcc = sketch2_abc\<lparr>buckets := (buckets sketch2_abc)
       [99 := \<lparr>fingerprint = 98, count = 2\<rparr>,
        356 := \<lparr>fingerprint = 98, count = 2\<rparr>,
        613 := \<lparr>fingerprint = 98, count = 2\<rparr>],
     heap := [\<lparr>Flow = ''c'', Count = 2\<rparr>, \<lparr>Flow = ''a'', Count = 3\<rparr>]\<rparr>"

text \<open>A sequence of draws: five that make a cell decay, then draws that never do.\<close>

definition example_draws :: rand where
  "example_draws n = (if n < 5 then 0 else 1)"

text \<open>
  The flow \<open>"zzm"\<close> selects the cells of \<open>"a"\<close> under \<open>example_hash\<close>, with another
  fingerprint; \<open>sketch2_zzm\<close> is \<open>sketch2_ab\<close> after \<open>Sample("zzm", 5)\<close> with
  \<open>example_draws\<close>.
\<close>

definition sketch2_zzm :: HeavyKeeper where
  "sketch2_zzm = sketch2_ab\<lparr>buckets := (buckets sketch2_ab)
       [97 := \<lparr>fingerprint = 352, count = 3\<rparr>,
        354 := \<lparr>fingerprint = 96, count = 1\<rparr>,
        611 := \<lparr>fingerprint = 96, count = 3\<rparr>],
     heap := [\<lparr>Flow = ''zzm'', Count = 3\<rparr>, \<lparr>Flow = ''a'', Count = 3\<rparr>]\<rparr>"


text \<open>
  The value of \<open>New(1034570302, 0.9)\<close>: \<open>K * ln K\<close> is about
  \<open>21474836480.9947\<close>, and so is the \<open>float64\<close> product, so the width is
  \<open>21474836480 = 5 * 2 ^ 32\<close>.
\<close>

definition sketch_wide :: HeavyKeeper where
  "sketch_wide = \<lparr>decay = 9 / 10, depth = 20, width = 21474836480,
     buckets = replicate (20 * 21474836480) bucket0,
     heap = replicate 1034570302 FlowCount0\<rparr>"

text \<open>A tracker with one free slot and two flows of equal count.\<close>

definition sketch_ties :: HeavyKeeper where
  "sketch_ties = \<lparr>decay = 9 / 10, depth = 3, width = 256, buckets = replicate 768 bucket0,
     heap = [\<lparr>Flow = [], Count = 0\<rparr>, \<lparr>Flow = ''a'', Count = 3\<rparr>,
             \<lparr>Flow = ''b'', Count = 5\<rparr>, \<lparr>Flow = ''c'', Count = 3\<rparr>]\<rparr>"

text \<open>A sketch with the five tracked flows of the repository's test of \<open>DecayAll\<close>.\<close>

definition sketch5 :: HeavyKeeper where
  "sketch5 = \<lparr>decay = 9 / 10, depth = 3, width = 256,
     buckets = (replicate 768 bucket0)
       [98 := \<lparr>fingerprint = 97, count = 6\<rparr>, 102 := \<lparr>fingerprint = 101, count = 100\<rparr>],
     heap = [\<lparr>Flow = ''b'', Count = 6\<rparr>, \<lparr>Flow = ''c'', Count = 13\<rparr>, \<lparr>Flow = ''f'', Count = 100\<rparr>,
             \<lparr>Flow = ''e'', Count = 50\<rparr>, \<lparr>Flow = ''d'', Count = 25\<rparr>]\<rparr>"

text \<open>\<open>sketch1\<close> after \<open>Sample("a", 90)\<close> with \<open>example_hash\<close>.\<close>

definition sketch1_a90 :: HeavyKeeper where
  "sketch1_a90 = sketch1\<lparr>
     buckets := (replicate 768 bucket0)
       [97 := \<lparr>fingerprint = 96, count = 90\<rparr>,
        354 := \<lparr>fingerprint = 96, count = 90\<rparr>,
        611 := \<lparr>fingerprint = 96, count = 90\<rparr>],
     heap := [\<lparr>Flow = ''a'', Count = 90\<rparr>]\<rparr>"

text \<open>
  The value of \<open>New(2, 0.9)\<close> after \<open>Sample("a", 1)\<close> with \<open>example_hash\<close>: one
  slot of the tracker holds \<open>"a"\<close>, the other one is unoccupied.
\<close>

definition sketch2_a :: HeavyKeeper where
  "sketch2_a = \<lparr>decay = 9 / 10, depth = 3, width = 256,
     buckets = (replicate 768 bucket0)
       [97 := \<lparr>fingerprint = 96, count = 1\<rparr>,
        354 := \<lparr>fingerprint = 96, count = 1\<rparr>,
        611 := \<lparr>fingerprint = 96, count = 1\<rparr>],
     heap = [\<lparr>Flow = [], Count = 0\<rparr>, \<lparr>Flow = ''a'', Count = 1\<rparr>]\<rparr>"

section \<open>Basic facts\<close>

subsection \<open>Rounding to \<open>float64\<close>\<close>

lemmas f64_eval = f64_def quantum_def exponent_def round_even_def pow2_def ilog2.simps Let_def

lemma ilog2_bounds: "0 < n \<Longrightarrow> 2 ^ ilog2 n \<le> n \<and> n < 2 * 2 ^ ilog2 n"
proof (induction n rule: ilog2.induct)
  case (1 n)
  show ?case
  proof (cases "n < 2")
    case True
    then have "n = 1" using 1(2) by simp
    then show ?thesis by (simp add: ilog2.simps)
  next
    case False
    then have h: "0 < n div 2" by simp
    define m :: nat where "m = 2 ^ ilog2 (n div 2)"
    have IH: "m \<le> n div 2 \<and> n div 2 < 2 * m"
      unfolding m_def using 1(1) [OF False h] .
    have e: "ilog2 n = Suc (ilog2 (n div 2))" using False by (subst ilog2.simps) simp
    have "2 * m \<le> n \<and> n < 2 * (2 * m)" using IH by presburger
    then show ?thesis unfolding e m_def by simp
  qed
qed

lemma pow2_powi: "pow2 e = 2 powi e"
  by (simp add: pow2_def power_int_def power_divide inverse_eq_divide)

lemma pow2_pos: "0 < pow2 e"
  by (simp add: pow2_powi)

lemma pow2_add: "pow2 (a + b) = pow2 a * pow2 b"
  by (simp add: pow2_powi power_int_add)

lemma pow2_diff: "pow2 (a - b) = pow2 a / pow2 b"
  by (simp add: pow2_powi power_int_diff)

lemma pow2_mono: "a \<le> b \<Longrightarrow> pow2 a \<le> pow2 b"
  by (simp add: pow2_powi power_int_increasing)

lemma pow2_less_imp: "pow2 a < pow2 b \<Longrightarrow> a < b"
  using pow2_mono [of b a] by (cases "a < b") simp_all

lemma pow2_nat: "pow2 (int n) = 2 ^ n"
  by (simp add: pow2_def)

lemma exponent_bounds:
  assumes "0 < x"
  shows "pow2 (exponent x) \<le> x \<and> x < pow2 (exponent x + 1)"
proof (cases "1 \<le> x")
  case True
  define n where "n = nat \<lfloor>x\<rfloor>"
  have n0: "0 < n" using True by (simp add: n_def)
  have nx: "real n \<le> x" "x < real n + 1" using True by (simp_all add: n_def)
  have e: "exponent x = int (ilog2 n)" using True by (simp add: exponent_def n_def)
  have lo: "(2 :: real) ^ ilog2 n \<le> real n"
    using ilog2_bounds [OF n0] by (metis of_nat_le_iff of_nat_numeral of_nat_power)
  have hi: "real n + 1 \<le> 2 * 2 ^ ilog2 n"
  proof -
    have "n + 1 \<le> 2 * 2 ^ ilog2 n" using ilog2_bounds [OF n0] by simp
    then have "real (n + 1) \<le> real (2 * 2 ^ ilog2 n)" by (simp only: of_nat_le_iff)
    then show ?thesis by simp
  qed
  have p1: "pow2 (int (ilog2 n)) = 2 ^ ilog2 n" by (rule pow2_nat)
  have p2: "pow2 (int (ilog2 n) + 1) = 2 * 2 ^ ilog2 n"
    by (simp add: pow2_def nat_add_distrib)
  show ?thesis
    unfolding e p1 p2 using lo hi nx by linarith
next
  case False
  then have x1: "x < 1" by simp
  define n where "n = nat \<lfloor>1 / x\<rfloor>"
  have ix: "1 < 1 / x" using assms x1 by simp
  have n0: "0 < n" using ix by (simp add: n_def)
  have fl: "0 \<le> \<lfloor>1 / x\<rfloor>" using assms by simp
  have nr: "real n = of_int \<lfloor>1 / x\<rfloor>" using fl by (simp add: n_def)
  have nx: "real n \<le> 1 / x" "1 / x < real n + 1" unfolding nr by linarith+
  define k where "k = ilog2 n"
  have lo: "(2 :: real) ^ k \<le> real n"
    using ilog2_bounds [OF n0] unfolding k_def by (metis of_nat_le_iff of_nat_numeral of_nat_power)
  have hi: "real n + 1 \<le> 2 * 2 ^ k"
  proof -
    have "n + 1 \<le> 2 * 2 ^ k" using ilog2_bounds [OF n0] by (simp add: k_def)
    then have "real (n + 1) \<le> real (2 * 2 ^ k)" by (simp only: of_nat_le_iff)
    then show ?thesis by simp
  qed
  have a: "x * 2 ^ k \<le> 1"
  proof -
    have "2 ^ k \<le> 1 / x" using lo nx(1) by linarith
    then show ?thesis using assms by (simp add: field_simps)
  qed
  have b: "1 < x * (2 * 2 ^ k)"
  proof -
    have "1 / x < 2 * 2 ^ k" using hi nx(2) by linarith
    then show ?thesis using assms by (simp add: field_simps)
  qed
  have p1: "pow2 1 = 2" by (simp add: pow2_def)
  have pk: "pow2 (- int k) = 1 / 2 ^ k" by (simp add: pow2_def)
  have pk1: "pow2 (- int k - 1) = 1 / (2 * 2 ^ k)"
    by (simp add: pow2_diff pk p1)
  show ?thesis
  proof (cases "x * 2 ^ k = 1")
    case True
    then have e: "exponent x = - int k" using False by (simp add: exponent_def n_def k_def pow2_nat)
    have xe: "x = 1 / 2 ^ k" using True by (simp add: field_simps)
    have pp: "pow2 (- int k + 1) = 2 * pow2 (- int k)" unfolding pow2_add p1 by simp
    have "pow2 (- int k) \<le> x \<and> x < pow2 (- int k + 1)"
      unfolding pp pk xe by (simp add: divide_strict_right_mono)
    then show ?thesis unfolding e .
  next
    case ne: False
    then have e: "exponent x = - int k - 1" using False by (simp add: exponent_def n_def k_def pow2_nat)
    have "x * 2 ^ k < 1" using a ne by simp
    then have "x < pow2 (- int k)" unfolding pk by (simp add: field_simps)
    moreover have "pow2 (- int k - 1) \<le> x" unfolding pk1 using b by (simp add: field_simps)
    ultimately show ?thesis unfolding e by simp
  qed
qed

lemma exponent_unique:
  assumes "pow2 e \<le> x" and "x < pow2 (e + 1)"
  shows "exponent x = e"
proof -
  have x0: "0 < x" using assms(1) pow2_pos [of e] by linarith
  note b = exponent_bounds [OF x0]
  have "pow2 e < pow2 (exponent x + 1)" using assms(1) b by linarith
  then have 1: "e < exponent x + 1" by (rule pow2_less_imp)
  have "pow2 (exponent x) < pow2 (e + 1)" using assms(2) b by linarith
  then have 2: "exponent x < e + 1" by (rule pow2_less_imp)
  show ?thesis using 1 2 by simp
qed

lemma exponent_mono:
  assumes "0 < x" and "x \<le> y"
  shows "exponent x \<le> exponent y"
proof -
  have y0: "0 < y" using assms by simp
  have "pow2 (exponent x) < pow2 (exponent y + 1)"
    using exponent_bounds [OF assms(1)] exponent_bounds [OF y0] assms(2) by linarith
  then have "exponent x < exponent y + 1" by (rule pow2_less_imp)
  then show ?thesis by simp
qed

lemma round_even_floor: "\<lfloor>x\<rfloor> \<le> round_even x \<and> round_even x \<le> \<lfloor>x\<rfloor> + 1"
  by (simp add: round_even_def Let_def)

lemma round_even_int: "round_even (of_int n) = n"
  by (simp add: round_even_def)

lemma round_even_mono:
  assumes "x \<le> y"
  shows "round_even x \<le> round_even y"
proof (cases "\<lfloor>x\<rfloor> = \<lfloor>y\<rfloor>")
  case True
  then show ?thesis using assms by (auto simp: round_even_def Let_def)
next
  case False
  then have "\<lfloor>x\<rfloor> < \<lfloor>y\<rfloor>" using floor_mono [OF assms] by simp
  then show ?thesis using round_even_floor [of x] round_even_floor [of y] by linarith
qed

lemma round_even_le_int: "x \<le> of_int n \<Longrightarrow> round_even x \<le> n"
  using round_even_mono [of x "of_int n"] by (simp add: round_even_int)

lemma round_even_ge_int: "of_int n \<le> x \<Longrightarrow> n \<le> round_even x"
  using round_even_mono [of "of_int n" x] by (simp add: round_even_int)

lemma round_even_small: "0 \<le> x \<Longrightarrow> x < 1 / 2 \<Longrightarrow> round_even x = 0"
proof -
  assume a: "0 \<le> x" "x < 1 / 2"
  then have "\<lfloor>x\<rfloor> = 0" by (simp add: floor_eq_iff)
  then show ?thesis using a by (simp add: round_even_def)
qed

lemma f64_nonneg: "0 \<le> x \<Longrightarrow> 0 \<le> f64 x"
proof -
  assume x: "0 \<le> x"
  have "0 \<le> round_even (x / pow2 (quantum x))"
    by (rule round_even_ge_int) (use x pow2_pos [of "quantum x"] in simp)
  then show ?thesis using pow2_pos [of "quantum x"] by (simp add: f64_def Let_def)
qed

lemma f64_pos_mono:
  assumes x0: "0 < x" and xy: "x \<le> y"
  shows "f64 x \<le> f64 y"
proof -
  have y0: "0 < y" using assms by simp
  define ex where "ex = exponent x"
  define ey where "ey = exponent y"
  define qx where "qx = quantum x"
  define qy where "qy = quantum y"
  have ee: "ex \<le> ey" unfolding ex_def ey_def by (rule exponent_mono [OF x0 xy])
  have qxd: "qx = max (ex - 52) (- 1074)" using x0 by (simp add: qx_def quantum_def ex_def)
  have qyd: "qy = max (ey - 52) (- 1074)" using y0 by (simp add: qy_def quantum_def ey_def)
  have fx: "f64 x = of_int (round_even (x / pow2 qx)) * pow2 qx"
    using x0 by (simp add: f64_def qx_def Let_def)
  have fy: "f64 y = of_int (round_even (y / pow2 qy)) * pow2 qy"
    using y0 by (simp add: f64_def qy_def Let_def)
  have bx: "pow2 ex \<le> x" "x < pow2 (ex + 1)" using exponent_bounds [OF x0] by (simp_all add: ex_def)
  have by': "pow2 ey \<le> y" "y < pow2 (ey + 1)" using exponent_bounds [OF y0] by (simp_all add: ey_def)
  show ?thesis
  proof (cases "qx = qy")
    case True
    have "x / pow2 qy \<le> y / pow2 qy" using xy pow2_pos [of qy] by (simp add: divide_right_mono)
    then have "round_even (x / pow2 qy) \<le> round_even (y / pow2 qy)" by (rule round_even_mono)
    then show ?thesis unfolding fx fy True using pow2_pos [of qy] by simp
  next
    case False
    then have lt: "qx < qy" using ee qxd qyd by (simp add: max_def split: if_splits)
    have qy: "qy = ey - 52" using lt qxd qyd by (simp add: max_def split: if_splits)
    have e1: "ex + 1 \<le> ey" using lt qxd qyd by (simp add: max_def split: if_splits)
    have ly: "pow2 ey \<le> f64 y"
    proof -
      have "pow2 ey / pow2 qy \<le> y / pow2 qy" using by'(1) pow2_pos [of qy] by (simp add: divide_right_mono)
      moreover have "pow2 ey / pow2 qy = of_int (2 ^ 52)"
        unfolding pow2_diff [symmetric] qy by (simp add: pow2_def)
      ultimately have "2 ^ 52 \<le> round_even (y / pow2 qy)" by (intro round_even_ge_int) simp
      then have "(2 ^ 52 :: real) \<le> of_int (round_even (y / pow2 qy))"
        by (metis of_int_le_iff of_int_numeral of_int_power)
      then have "2 ^ 52 * pow2 qy \<le> of_int (round_even (y / pow2 qy)) * pow2 qy"
        using pow2_pos [of qy] by simp
      moreover have "2 ^ 52 * pow2 qy = pow2 ey"
      proof -
        have "pow2 ey = pow2 (52 + qy)" by (simp add: qy)
        also have "\<dots> = pow2 52 * pow2 qy" by (rule pow2_add)
        finally show ?thesis by (simp add: pow2_def)
      qed
      ultimately show ?thesis unfolding fy by simp
    qed
    define d where "d = ex + 1 - qx"
    have xd: "x / pow2 qx < pow2 d"
      unfolding d_def pow2_diff using bx(2) pow2_pos [of qx] by (simp add: divide_strict_right_mono)
    show ?thesis
    proof (cases "0 \<le> d")
      case True
      have "pow2 d = of_int (2 ^ nat d)" using True by (simp add: pow2_def)
      then have "round_even (x / pow2 qx) \<le> 2 ^ nat d" using xd by (intro round_even_le_int) simp
      then have "real_of_int (round_even (x / pow2 qx)) \<le> pow2 d"
        using True by (simp add: pow2_def)
      then have "f64 x \<le> pow2 d * pow2 qx" unfolding fx using pow2_pos [of qx] by simp
      also have "\<dots> = pow2 (ex + 1)" unfolding pow2_add [symmetric] by (simp add: d_def)
      also have "\<dots> \<le> pow2 ey" by (rule pow2_mono [OF e1])
      finally show ?thesis using ly by simp
    next
      case False
      then have "d \<le> - 1" by simp
      then have "pow2 d \<le> pow2 (- 1)" by (rule pow2_mono)
      moreover have "pow2 (- 1) = 1 / 2" by (simp add: pow2_def)
      ultimately have "x / pow2 qx < 1 / 2" using xd by linarith
      moreover have "0 \<le> x / pow2 qx" using x0 pow2_pos [of qx] by simp
      ultimately have "round_even (x / pow2 qx) = 0" by (intro round_even_small)
      then have "f64 x = 0" unfolding fx by simp
      then show ?thesis using f64_nonneg [of y] y0 by simp
    qed
  qed
qed

lemma f64_mono: "0 \<le> x \<Longrightarrow> x \<le> y \<Longrightarrow> f64 x \<le> f64 y"
proof -
  assume a: "0 \<le> x" "x \<le> y"
  show ?thesis
  proof (cases "x = 0")
    case True
    then show ?thesis using f64_nonneg [of y] a by (simp add: f64_def)
  next
    case False
    then show ?thesis using a f64_pos_mono [of x y] by simp
  qed
qed

lemma round_even_error: "\<bar>real_of_int (round_even t) - t\<bar> \<le> 1 / 2"
proof -
  have "real_of_int \<lfloor>t\<rfloor> \<le> t" "t < real_of_int \<lfloor>t\<rfloor> + 1" by linarith+
  then show ?thesis by (auto simp: round_even_def Let_def)
qed

lemma f64_error: "\<bar>f64 x - x\<bar> \<le> pow2 (quantum x) / 2"
proof (cases "x = 0")
  case True
  then show ?thesis using pow2_pos [of "quantum x"] by (simp add: f64_def)
next
  case False
  define P where "P = pow2 (quantum x)"
  have P: "0 < P" unfolding P_def by (rule pow2_pos)
  have "f64 x - x = (real_of_int (round_even (x / P)) - x / P) * P"
    using False P by (simp add: f64_def Let_def P_def field_simps)
  then have "\<bar>f64 x - x\<bar> = \<bar>real_of_int (round_even (x / P)) - x / P\<bar> * P"
    using P by (simp add: abs_mult)
  also have "\<dots> \<le> 1 / 2 * P"
    using round_even_error [of "x / P"] P by (intro mult_right_mono) simp_all
  finally show ?thesis by (simp add: P_def)
qed

lemma exponent_less:
  assumes "0 < x" and "x < pow2 (e + 1)"
  shows "exponent x \<le> e"
proof -
  have "pow2 (exponent x) < pow2 (e + 1)" using exponent_bounds [OF assms(1)] assms(2) by linarith
  then have "exponent x < e + 1" by (rule pow2_less_imp)
  then show ?thesis by simp
qed

lemma exponent_ge:
  assumes "pow2 e \<le> x"
  shows "e \<le> exponent x"
proof -
  have x0: "0 < x" using assms pow2_pos [of e] by linarith
  have "pow2 e < pow2 (exponent x + 1)" using exponent_bounds [OF x0] assms by linarith
  then have "e < exponent x + 1" by (rule pow2_less_imp)
  then show ?thesis by simp
qed

text \<open>Below \<open>2 ^ (e + 1)\<close> the rounding error is at most \<open>2 ^ (e - 53)\<close>, for \<open>e \<ge> - 1022\<close>.\<close>

lemma f64_error_below:
  assumes "0 \<le> x" and "x < pow2 (e + 1)" and "- 1022 \<le> e"
  shows "\<bar>f64 x - x\<bar> \<le> pow2 (e - 53)"
proof (cases "x = 0")
  case True
  then show ?thesis using pow2_pos [of "e - 53"] by (simp add: f64_def)
next
  case False
  then have x0: "0 < x" using assms(1) by simp
  have "exponent x \<le> e" by (rule exponent_less [OF x0 assms(2)])
  then have "quantum x \<le> e - 52" using x0 assms(3) by (simp add: quantum_def)
  then have "pow2 (quantum x) \<le> pow2 (e - 52)" by (rule pow2_mono)
  moreover have "pow2 (e - 52) = 2 * pow2 (e - 53)"
    using pow2_add [of 1 "e - 53"] by (simp add: pow2_def)
  ultimately show ?thesis using f64_error [of x] by linarith
qed

text \<open>The relative error of rounding a normal number is at most \<open>2 ^ - 53\<close>.\<close>

lemma f64_relative_error:
  assumes "pow2 (- 1022) \<le> x"
  shows "\<bar>f64 x - x\<bar> \<le> x / 2 ^ 53"
proof -
  have x0: "0 < x" using assms pow2_pos [of "- 1022"] by linarith
  define e where "e = exponent x"
  have e: "- 1022 \<le> e" unfolding e_def by (rule exponent_ge [OF assms])
  have b: "pow2 e \<le> x" "x < pow2 (e + 1)" using exponent_bounds [OF x0] by (simp_all add: e_def)
  have "\<bar>f64 x - x\<bar> \<le> pow2 (e - 53)" using x0 b(2) e by (intro f64_error_below) simp_all
  also have "\<dots> = pow2 e / 2 ^ 53" unfolding pow2_diff by (simp add: pow2_def)
  also have "\<dots> \<le> x / 2 ^ 53" using b(1) by (simp add: divide_right_mono)
  finally show ?thesis .
qed

text \<open>Every natural number below \<open>2 ^ 53\<close> is a \<open>float64\<close>.\<close>

lemma f64_of_nat:
  assumes "n < 2 ^ 53"
  shows "f64 (real n) = real n"
proof (cases "n = 0")
  case True
  then show ?thesis by (simp add: f64_def)
next
  case False
  define x where "x = real n"
  have x1: "1 \<le> x" using False by (simp add: x_def)
  have x0: "0 < x" using x1 by simp
  have xlt: "x < 2 ^ 53"
    unfolding x_def using assms by (metis of_nat_less_iff of_nat_numeral of_nat_power)
  define e where "e = exponent x"
  have "pow2 0 \<le> x" using x1 by (simp add: pow2_def)
  then have e0: "0 \<le> e" unfolding e_def by (rule exponent_ge)
  have "x < pow2 (52 + 1)" using xlt by (simp add: pow2_def)
  then have e52: "e \<le> 52" unfolding e_def by (rule exponent_less [OF x0])
  define m where "m = nat (52 - e)"
  have q: "quantum x = - int m" using x0 e0 e52 by (simp add: quantum_def e_def m_def)
  have P: "pow2 (- int m) = 1 / 2 ^ m" by (simp add: pow2_def)
  have "x / pow2 (- int m) = of_int (int n * 2 ^ m)" unfolding P by (simp add: x_def)
  then have "round_even (x / pow2 (- int m)) = int n * 2 ^ m" by (simp only: round_even_int)
  then have "f64 x = of_int (int n * 2 ^ m) * (1 / 2 ^ m)"
    using x0 by (simp add: f64_def Let_def q P)
  then show ?thesis by (simp add: x_def)
qed

lemma Log_rn_near:
  assumes "x = 1 \<or> 2 \<le> x"
  shows "Log_near Log_rn x"
proof (cases "x = 1")
  case True
  then show ?thesis by (simp add: Log_near_def Log_rn_def f64_def)
next
  case False
  then have x2: "2 \<le> x" using assms by simp
  have "exp (1 / 2 :: real) \<le> 1 + 1 / 2 + (1 / 2)\<^sup>2" by (rule exp_bound) simp_all
  then have "exp (1 / 2 :: real) \<le> 2" by (simp add: power2_eq_square)
  then have "1 / 2 \<le> ln (2 :: real)" by (subst ln_ge_iff) simp_all
  also have "\<dots> \<le> ln x" using x2 by simp
  finally have l: "1 / 2 \<le> ln x" .
  have "pow2 (- 1022) \<le> 1 / 2" by (simp add: pow2_def)
  then have "pow2 (- 1022) \<le> ln x" using l by linarith
  then have "\<bar>f64 (ln x) - ln x\<bar> \<le> ln x / 2 ^ 53" by (rule f64_relative_error)
  also have "\<dots> \<le> ln x / 2 ^ 50" using l by (intro divide_left_mono) simp_all
  finally show ?thesis by (simp add: Log_near_def Log_rn_def)
qed

lemma f64_0: "f64 0 = 0"
  by (simp add: f64_def)

lemma f64_1: "f64 1 = 1"
  by (simp add: f64_eval)

lemma f64_unit: "0 \<le> x \<Longrightarrow> x \<le> 1 \<Longrightarrow> 0 \<le> f64 x \<and> f64 x \<le> 1"
  using f64_nonneg [of x] f64_mono [of x 1] by (simp add: f64_1)

lemma f64_of_int:
  assumes "0 \<le> k" and "k < 2 ^ 53"
  shows "f64 (real_of_int k) = real_of_int k"
proof -
  have "nat k < 2 ^ 53" using assms by (simp add: nat_less_iff)
  then have "f64 (real (nat k)) = real (nat k)" by (rule f64_of_nat)
  then show ?thesis using assms(1) by simp
qed

lemma floor_near:
  fixes a b :: real
  assumes "\<bar>a - b\<bar> < 1"
  shows "\<bar>\<lfloor>a\<rfloor> - \<lfloor>b\<rfloor>\<bar> \<le> 1"
  using assms by linarith

lemma max_near:
  fixes a b c :: int
  assumes "\<bar>a - b\<bar> \<le> 1"
  shows "\<bar>max c a - max c b\<bar> \<le> 1"
  using assms by linarith

lemma Log_near_bounds:
  assumes "Log_near Log x"
  shows "ln x - ln x / 2 ^ 50 \<le> Log x" and "Log x \<le> ln x + ln x / 2 ^ 50"
  using assms unfolding Log_near_def by linarith+

subsection \<open>Loops and conversions\<close>

lemma for_range_from: "for_range f i xs = take i xs @ map f (drop i xs)"
proof (induction f i xs rule: for_range.induct)
  case (1 f i xs)
  show ?case
  proof (cases "i < length xs")
    case True
    have "for_range f i xs = for_range f (i + 1) (xs[i := f (xs ! i)])"
      using True by (subst for_range.simps) simp
    also have "\<dots> = take (i + 1) (xs[i := f (xs ! i)]) @ map f (drop (i + 1) (xs[i := f (xs ! i)]))"
      using 1 True by simp
    also have "\<dots> = take i xs @ map f (drop i xs)"
      using True by (simp add: take_Suc_conv_app_nth Cons_nth_drop_Suc [symmetric])
    finally show ?thesis .
  next
    case False
    then show ?thesis by (subst for_range.simps) simp
  qed
qed

lemma for_range_map: "for_range f 0 xs = map f xs"
  by (simp add: for_range_from)

lemma Reset_eq: "Reset hk = hk\<lparr>buckets := replicate (length (buckets hk)) bucket0,
    heap := replicate (length (heap hk)) FlowCount0\<rparr>"
  by (simp add: Reset_def for_range_map map_replicate_const)

lemma DecayAll_scale:
  "0 < p \<Longrightarrow> p \<le> 1 \<Longrightarrow>
   DecayAll hk p = hk\<lparr>buckets := map (\<lambda>b. b\<lparr>count := scale_u32 (f64 (1 - p)) (count b)\<rparr>) (buckets hk),
                     heap := map (\<lambda>e. e\<lparr>Count := scale_u32 (f64 (1 - p)) (Count e)\<rparr>) (heap hk)\<rparr>"
  by (simp add: DecayAll_def for_range_map Let_def)

lemma trunc_nonneg: "0 \<le> x \<Longrightarrow> trunc x = \<lfloor>x\<rfloor>"
  by (simp add: trunc_def)

text \<open>
  A count scaled by a factor in \<open>[0, 1]\<close>: the rounded product lies between zero and
  the count, so that the conversion to \<open>uint32\<close> does not wrap.
\<close>

lemma scale_u32_range:
  fixes c :: uint32
  assumes "0 \<le> q" "q \<le> 1"
  shows "0 \<le> f64 (real (unat c) * q)" and "f64 (real (unat c) * q) \<le> real (unat c)"
proof -
  let ?x = "real (unat c) * q"
  have c0: "0 \<le> real (unat c)" by (rule of_nat_0_le_iff)
  have x0: "0 \<le> ?x" using assms c0 by (rule_tac mult_nonneg_nonneg)
  have x1: "?x \<le> real (unat c)" using assms c0 by (rule_tac mult_left_le)
  show "0 \<le> f64 ?x" using x0 by (rule f64_nonneg)
  have "unat c < 2 ^ LENGTH(32)" by (rule unsigned_less)
  then have c53: "unat c < 2 ^ 53" by simp
  have "f64 ?x \<le> f64 (real (unat c))" using x0 x1 by (rule f64_mono)
  then show "f64 ?x \<le> real (unat c)" using f64_of_nat [OF c53] by simp
qed

lemma scale_u32_uint:
  assumes "0 \<le> q" "q \<le> 1"
  shows "uint (scale_u32 q c) = \<lfloor>f64 (real_of_int (uint c) * q)\<rfloor>"
proof -
  let ?x = "real (unat c) * q"
  note r = scale_u32_range [OF assms, of c]
  have "\<lfloor>f64 ?x\<rfloor> \<le> int (unat c)" using r(2) by linarith
  moreover have "int (unat c) < 2 ^ 32" using uint_lt2p [of c] by (simp add: )
  moreover have "0 \<le> \<lfloor>f64 ?x\<rfloor>" using r(1) by simp
  ultimately have "0 \<le> \<lfloor>f64 ?x\<rfloor> \<and> \<lfloor>f64 ?x\<rfloor> < 2 ^ 32" by linarith
  then have "uint (word_of_int \<lfloor>f64 ?x\<rfloor> :: uint32) = \<lfloor>f64 ?x\<rfloor>"
    by (simp add: uint_word_of_int)
  then show ?thesis using r(1) by (simp add: scale_u32_def trunc_nonneg)
qed

lemma scale_u32_le:
  assumes "0 \<le> q" "q \<le> 1"
  shows "scale_u32 q c \<le> c"
proof -
  have "\<lfloor>f64 (real (unat c) * q)\<rfloor> \<le> int (unat c)"
    using scale_u32_range(2) [OF assms, of c] by linarith
  then show ?thesis using scale_u32_uint [OF assms, of c] by (simp add: word_le_def)
qed

text \<open>
  The two roundings move the product by less than one, so the count that the code
  writes is within one of the count of the specification.
\<close>

lemma float_scale_near:
  assumes "0 < p" and "p \<le> 1" and "0 \<le> c" and "c < 2 ^ 32"
  shows "\<bar>float_scale p c - spec_scale p c\<bar> \<le> 1"
proof -
  define y where "y = 1 - p"
  define C where "C = real_of_int c"
  have y: "0 \<le> y" "y < 1" using assms by (simp_all add: y_def)
  have C0: "0 \<le> C" using assms by (simp add: C_def)
  have "real_of_int c < real_of_int (2 ^ 32)" using assms(4) by (simp only: of_int_less_iff)
  then have C1: "C < 2 ^ 32" by (simp add: C_def)
  have "\<bar>f64 y - y\<bar> \<le> pow2 (- 1 - 53)" using y by (intro f64_error_below) (simp_all add: pow2_def)
  then have ey: "\<bar>f64 y - y\<bar> \<le> 1 / 2 ^ 54" by (simp add: pow2_def)
  have q: "0 \<le> f64 y" "f64 y \<le> 1" using f64_unit [of y] y by simp_all
  define z where "z = C * f64 y"
  have z0: "0 \<le> z" using C0 q by (simp add: z_def)
  have zC: "z \<le> C" unfolding z_def using C0 q by (simp add: mult_left_le)
  have "\<bar>z - C * y\<bar> = C * \<bar>f64 y - y\<bar>"
    using C0 by (simp add: z_def abs_mult right_diff_distrib [symmetric])
  also have "\<dots> \<le> 2 ^ 32 * (1 / 2 ^ 54)" using C0 C1 ey by (intro mult_mono) simp_all
  finally have e1: "\<bar>z - C * y\<bar> \<le> 1 / 2 ^ 22" by simp
  have "z < pow2 (31 + 1)" using zC C1 by (simp add: pow2_def)
  then have "\<bar>f64 z - z\<bar> \<le> pow2 (31 - 53)" using z0 by (intro f64_error_below) simp_all
  then have e2: "\<bar>f64 z - z\<bar> \<le> 1 / 2 ^ 22" by (simp add: pow2_def)
  have "(1 :: real) / 2 ^ 22 \<le> 1 / 4" by simp
  then have "\<bar>f64 z - C * y\<bar> < 1" using e1 e2 by linarith
  then have "\<bar>\<lfloor>f64 z\<rfloor> - \<lfloor>C * y\<rfloor>\<bar> \<le> 1" by (rule floor_near)
  moreover have "0 \<le> f64 z" using z0 by (rule f64_nonneg)
  moreover have "0 \<le> C * y" using C0 y by simp
  ultimately show ?thesis
    by (simp add: float_scale_def spec_scale_def trunc_nonneg z_def y_def C_def)
qed

lemma scale_u32_float_scale:
  assumes "0 < p" and "p \<le> 1"
  shows "uint (scale_u32 (f64 (1 - p)) c) = float_scale p (uint c)"
    and "scale_u32 (f64 (1 - p)) c \<le> c"
    and "\<bar>uint (scale_u32 (f64 (1 - p)) c) - spec_scale p (uint c)\<bar> \<le> 1"
proof -
  have q: "0 \<le> f64 (1 - p)" "f64 (1 - p) \<le> 1" using f64_unit [of "1 - p"] assms by simp_all
  have "0 \<le> f64 (real_of_int (uint c) * f64 (1 - p))"
    using scale_u32_range(1) [OF q, of c] by simp
  then show u: "uint (scale_u32 (f64 (1 - p)) c) = float_scale p (uint c)"
    using scale_u32_uint [OF q, of c] by (simp add: float_scale_def trunc_nonneg)
  show "scale_u32 (f64 (1 - p)) c \<le> c" by (rule scale_u32_le [OF q])
  have "uint c < 2 ^ 32" using uint_lt2p [of c] by simp
  then show "\<bar>uint (scale_u32 (f64 (1 - p)) c) - spec_scale p (uint c)\<bar> \<le> 1"
    unfolding u using assms by (intro float_scale_near) simp_all
qed

lemma Count_in_absent: "\<forall>e \<in> set h. Flow e \<noteq> x \<Longrightarrow> Count_in h x = (0, False)"
  by (induction h) auto

lemma Count_in_zero: "\<forall>e \<in> set h. Count e = 0 \<Longrightarrow> e \<in> set h \<Longrightarrow> Count_in h (Flow e) = (0, True)"
  by (induction h) auto

lemma Count_in_replicate0: "Count_in (replicate n FlowCount0) x = (0, x = [] \<and> 0 < n)"
  by (induction n) (auto simp: FlowCount0_def)

lemma set_stable_insert: "set (stable_insert lt x ys) = insert x (set ys)"
  by (induction ys) auto

lemma length_stable_insert: "length (stable_insert lt x ys) = Suc (length ys)"
  by (induction ys) auto

lemma mset_stable_insert: "mset (stable_insert lt x ys) = add_mset x (mset ys)"
  by (induction ys) auto

lemma mset_foldl_insert: "mset (foldl (\<lambda>acc x. stable_insert lt x acc) acc xs) = mset acc + mset xs"
  by (induction xs arbitrary: acc) (auto simp: mset_stable_insert)

lemma mset_sort_Stable: "mset (sort_Stable lt xs) = mset xs"
  by (simp add: sort_Stable_def mset_foldl_insert)

lemma set_sort_Stable: "set (sort_Stable lt xs) = set xs"
  by (metis mset_sort_Stable set_mset_mset)

lemma length_sort_Stable: "length (sort_Stable lt xs) = length xs"
  by (metis mset_sort_Stable size_mset)

lemma trim_end_zero: "\<forall>i < e. Count (tops ! i) = 0 \<Longrightarrow> trim_end tops e = 0"
  by (induction e) auto

lemma Top_all_zero:
  assumes "\<forall>e \<in> set (heap hk). Count e = 0"
  shows "Top hk = []"
proof -
  let ?s = "sort_Stable reverse_byCount (heap hk)"
  have "\<forall>i < length ?s. Count (?s ! i) = 0"
    using assms by (metis nth_mem set_sort_Stable)
  then have "trim_end ?s (length ?s) = 0" by (rule trim_end_zero)
  then show ?thesis by (simp add: Top_def TopInto_def)
qed

lemmas eval_defs = Sample_def Min_heap_def FlowCount0_def example_hash_def fingerprint_of_def
  sample_rows.simps slot_def sample_cell_def bucket0_def max_u32_def Find_def Fix_def down_def
  down_loop.simps up.simps Less_def Swap_def

subsection \<open>Sizing\<close>

lemma ln46_lower: "7 / 2 \<le> ln (46 :: real)"
proof -
  have "exp (1 / 4 :: real) \<le> 1 + 1 / 4 + (1 / 4)\<^sup>2"
    by (rule exp_bound) simp_all
  then have a: "exp (1 / 4 :: real) \<le> 21 / 16" by (simp add: power2_eq_square)
  have "exp (7 / 2 :: real) = exp (of_nat 14 * (1 / 4))" by simp
  also have "\<dots> = exp (1 / 4) ^ 14" by (rule exp_of_nat_mult)
  also have "\<dots> \<le> (21 / 16) ^ 14" using a by (intro power_mono) simp_all
  also have "\<dots> \<le> 46" by (simp add: power_divide)
  finally have "exp (7 / 2 :: real) \<le> 46" .
  then show ?thesis by (subst ln_ge_iff) simp_all
qed

lemma ln46_upper: "ln (46 :: real) \<le> 39 / 10"
proof -
  have a: "221 / 200 \<le> exp (1 / 10 :: real)"
    using exp_lower_Taylor_quadratic [of "1 / 10 :: real"] by (simp add: power2_eq_square)
  have "(46 :: real) \<le> (221 / 200) ^ 39" by (simp add: power_divide)
  also have "\<dots> \<le> exp (1 / 10) ^ 39" using a by (intro power_mono) simp_all
  also have "\<dots> = exp (of_nat 39 * (1 / 10))" by (rule exp_of_nat_mult [symmetric])
  also have "\<dots> = exp (39 / 10)" by simp
  finally have "exp (ln 46) \<le> exp (39 / 10 :: real)" by simp
  then show ?thesis by (simp only: exp_le_cancel_iff)
qed

text \<open>
  \<open>New(46, 0.9)\<close> is \<open>sketch46\<close>, and \<open>New(1, 0.9)\<close> is \<open>sketch1\<close>, whatever
  \<open>math.Log\<close> returns within its error, in particular for \<open>Log_rn\<close>.
\<close>

lemma New_46_near:
  assumes "Log_near Log 46"
  shows "New Log 46 (9 / 10) = Inr sketch46"
proof -
  define L where "L = Log 46"
  have e: "ln (46 :: real) / 2 ^ 50 \<le> 1 / 100" using ln46_upper by simp
  have e0: "0 \<le> ln (46 :: real) / 2 ^ 50" by simp
  note b = Log_near_bounds [OF assms, folded L_def]
  have lo: "3 \<le> L" using b(1) e ln46_lower by linarith
  have hi: "L < 4" using b(2) e ln46_upper by linarith
  have k: "f64 46 = 46" by (simp add: f64_eval)
  have d: "trunc L = 3" using lo hi by (simp add: trunc_def floor_eq_iff)
  have "46 * L \<le> 184" using hi by simp
  then have "f64 (46 * L) \<le> f64 184" using lo by (intro f64_mono) simp_all
  moreover have "f64 184 = 184" by (simp add: f64_eval)
  moreover have "0 \<le> f64 (46 * L)" using lo by (intro f64_nonneg) simp
  ultimately have w: "trunc (f64 (46 * L)) < 256" by (simp add: trunc_def floor_less_iff)
  show ?thesis using w d by (simp add: New_def Let_def sketch46_def L_def k)
qed

lemma New_46: "New Log_rn 46 (9 / 10) = Inr sketch46"
  by (rule New_46_near) (simp add: Log_rn_near)

lemma spec_depth_46: "spec_depth 46 = 4"
proof -
  have "round (ln (46 :: real)) = 4"
    using ln46_lower ln46_upper by (intro round_unique) simp_all
  then show ?thesis by (simp add: spec_depth_def)
qed

lemma New_1_near:
  assumes "Log_near Log 1"
  shows "New Log 1 (9 / 10) = Inr sketch1"
proof -
  have "Log 1 = 0" using assms by (simp add: Log_near_def)
  then show ?thesis by (simp add: New_def trunc_def sketch1_def f64_0 f64_1)
qed

lemma New_1: "New Log_rn 1 (9 / 10) = Inr sketch1"
  by (rule New_1_near) (simp add: Log_rn_near)

text \<open>Up to \<open>K = 7\<close> the sketch has the minimal dimensions.\<close>

lemma New_small_near:
  assumes "1 \<le> k" and "k \<le> 7" and "Log_near Log (real_of_int k)"
  shows "New Log k (9 / 10) = Inr (sketch_small (nat k))"
proof -
  define x where "x = real_of_int k"
  define L where "L = Log x"
  have x1: "1 \<le> x" and x7: "x \<le> 7" using assms by (simp_all add: x_def)
  have kf: "f64 x = x" unfolding x_def using assms by (intro f64_of_int) simp_all
  have a: "13 / 8 \<le> exp (1 / 2 :: real)"
    using exp_lower_Taylor_quadratic [of "1 / 2 :: real"] by (simp add: power2_eq_square)
  have "(7 :: real) \<le> (13 / 8) ^ 5" by (simp add: power_divide)
  also have "\<dots> \<le> exp (1 / 2) ^ 5" using a by (intro power_mono) simp_all
  also have "\<dots> = exp (of_nat 5 * (1 / 2))" by (rule exp_of_nat_mult [symmetric])
  also have "\<dots> = exp (5 / 2)" by simp
  finally have "exp (ln x) \<le> exp (5 / 2)" using x1 x7 by simp
  then have l2: "ln x \<le> 5 / 2" by (simp only: exp_le_cancel_iff)
  have l0: "0 \<le> ln x" using x1 by simp
  have e: "ln x / 2 ^ 50 \<le> 1 / 100" using l2 by simp
  have e0: "0 \<le> ln x / 2 ^ 50" using l0 by simp
  have e1: "ln x / 2 ^ 50 \<le> ln x" using l0 by (simp add: field_simps)
  note b = Log_near_bounds [OF assms(3), folded x_def, folded L_def]
  have L0: "0 \<le> L" using b(1) e1 by linarith
  have L3: "L < 3" using b(2) e l2 by linarith
  have d: "trunc L < 3" using L0 L3 by (simp add: trunc_def floor_less_iff)
  have "x * L \<le> 7 * 3" using x1 x7 L0 L3 by (intro mult_mono) simp_all
  then have "f64 (x * L) \<le> f64 21" using x1 L0 by (intro f64_mono) simp_all
  moreover have "f64 21 = 21" by (simp add: f64_eval)
  moreover have "0 \<le> f64 (x * L)" using x1 L0 by (intro f64_nonneg) simp
  ultimately have w: "trunc (f64 (x * L)) < 256" by (simp add: trunc_def floor_less_iff)
  have "New Log k (9 / 10) =
      Inr \<lparr>decay = 9 / 10, depth = 3, width = 256,
           buckets = replicate 768 bucket0, heap = replicate (nat k) FlowCount0\<rparr>"
    using assms(1) w d unfolding New_def Let_def x_def [symmetric] kf L_def [symmetric] by simp
  then show ?thesis by (simp add: sketch_small_def)
qed

lemma Log_rn_near_int: "1 \<le> k \<Longrightarrow> Log_near Log_rn (real_of_int k)"
proof -
  assume k: "1 \<le> k"
  have "k = 1 \<or> 2 \<le> k" using k by linarith
  then have "real_of_int k = 1 \<or> 2 \<le> real_of_int k" by auto
  then show ?thesis by (rule Log_rn_near)
qed

lemma New_small:
  assumes "1 \<le> k" and "k \<le> 7"
  shows "New Log_rn k (9 / 10) = Inr (sketch_small (nat k))"
  using assms by (intro New_small_near Log_rn_near_int)

text \<open>
  Claim C8, as the specification states it, fails: for \<open>K = 46\<close> the logarithm is
  about \<open>3.83\<close>; the code truncates it to \<open>3\<close>, rounding to the nearest integer
  gives \<open>4\<close>.
\<close>

theorem New_depth_not_rounded:
  "New Log_rn 46 (9 / 10) = Inr sketch46 \<and> int (depth sketch46) \<noteq> spec_depth 46"
  by (simp add: New_46 spec_depth_46) (simp add: sketch46_def)

text \<open>
  Claim C8, amended: for every valid decay and every \<open>K\<close> from \<open>1\<close> to \<open>2 ^ 32\<close>
  the constructed sketch has \<open>width = max(256, trunc(fl(K * L)))\<close> and
  \<open>depth = max(3, trunc(L))\<close>, where \<open>L\<close> is the \<open>float64\<close> that \<open>math.Log\<close>
  returns for \<open>K\<close>, \<open>fl\<close> rounds the product to the nearest \<open>float64\<close>, and
  \<open>trunc\<close> drops the fraction; the matrix has \<open>depth * width\<close> cells and the heap
  \<open>K\<close> entries. When \<open>L\<close> is within a relative error of \<open>2 ^ - 50\<close> of \<open>ln K\<close>,
  the width is within one of \<open>max(256, trunc(K * ln K))\<close> and the depth within one of
  \<open>max(3, trunc(ln K))\<close>.
\<close>

theorem New_dimensions_trunc:
  assumes "1 \<le> k" and "k \<le> 2 ^ 32" and "0 < dec" and "dec \<le> 1"
  shows "\<exists>hk. New Log k dec = Inr hk \<and>
           int (width hk) = max 256 (trunc (f64 (real_of_int k * Log (real_of_int k)))) \<and>
           int (depth hk) = max 3 (trunc (Log (real_of_int k))) \<and>
           length (buckets hk) = depth hk * width hk \<and>
           length (heap hk) = nat k \<and> decay hk = dec \<and>
           (Log_near Log (real_of_int k) \<longrightarrow>
              \<bar>int (width hk) - max 256 \<lfloor>real_of_int k * ln (real_of_int k)\<rfloor>\<bar> \<le> 1 \<and>
              \<bar>int (depth hk) - max 3 \<lfloor>ln (real_of_int k)\<rfloor>\<bar> \<le> 1)"
proof -
  define x where "x = real_of_int k"
  define W where "W = max 256 (trunc (f64 (x * Log x)))"
  define Dp where "Dp = max 3 (trunc (Log x))"
  have x1: "1 \<le> x" using assms(1) by (simp add: x_def)
  have "real_of_int k \<le> real_of_int (2 ^ 32)" using assms(2) by (simp only: of_int_le_iff)
  then have x32: "x \<le> 2 ^ 32" by (simp add: x_def)
  have kf: "f64 x = x" unfolding x_def using assms(1,2) by (intro f64_of_int) simp_all
  define hk where "hk = \<lparr>decay = dec, depth = nat Dp, width = nat W,
      buckets = replicate (nat Dp * nat W) bucket0, heap = replicate (nat k) FlowCount0\<rparr>"
  have new: "New Log k dec = Inr hk"
    using assms unfolding New_def Let_def x_def [symmetric] kf
    by (auto simp: hk_def W_def Dp_def max_def)
  have W: "int (width hk) = W" and Dp: "int (depth hk) = Dp"
    by (simp_all add: hk_def W_def Dp_def)
  have near: "\<bar>W - max 256 \<lfloor>x * ln x\<rfloor>\<bar> \<le> 1 \<and> \<bar>Dp - max 3 \<lfloor>ln x\<rfloor>\<bar> \<le> 1"
    if n: "Log_near Log x"
  proof -
    define L where "L = Log x"
    have l0: "0 \<le> ln x" using x1 by simp
    have p: "ln ((2 :: real) ^ 32) = real 32 * ln 2" by (rule ln_realpow)
    have "ln x \<le> ln ((2 :: real) ^ 32)" using x1 x32 by (subst ln_le_cancel_iff) simp_all
    also have "\<dots> \<le> 32 * 1" unfolding p using ln_le_minus_one [of 2] by simp
    finally have l32: "ln x \<le> 32" by simp
    have e: "ln x / 2 ^ 50 \<le> 1 / 2 ^ 45" using l32 by simp
    have e1: "ln x / 2 ^ 50 \<le> ln x" using l0 by (simp add: field_simps)
    note b = Log_near_bounds [OF n, folded L_def]
    have L0: "0 \<le> L" using b(1) e1 by linarith
    have L33: "L \<le> 33" using b(2) e l32 by simp
    have dL: "\<bar>L - ln x\<bar> \<le> 1 / 2 ^ 45" using b e by linarith
    moreover have "(1 :: real) / 2 ^ 45 \<le> 1 / 4" by simp
    ultimately have "\<bar>L - ln x\<bar> < 1" by linarith
    then have "\<bar>\<lfloor>L\<rfloor> - \<lfloor>ln x\<rfloor>\<bar> \<le> 1" by (rule floor_near)
    then have "\<bar>max 3 \<lfloor>L\<rfloor> - max 3 \<lfloor>ln x\<rfloor>\<bar> \<le> 1" by (rule max_near)
    then have d: "\<bar>Dp - max 3 \<lfloor>ln x\<rfloor>\<bar> \<le> 1"
      unfolding Dp_def L_def [symmetric] trunc_nonneg [OF L0] .
    define z where "z = x * L"
    have z0: "0 \<le> z" using x1 L0 by (simp add: z_def)
    have "z \<le> 2 ^ 32 * 33" unfolding z_def using x1 x32 L0 L33 by (intro mult_mono) simp_all
    then have "z < pow2 (37 + 1)" by (simp add: pow2_def)
    then have "\<bar>f64 z - z\<bar> \<le> pow2 (37 - 53)" using z0 by (intro f64_error_below) simp_all
    then have e2: "\<bar>f64 z - z\<bar> \<le> 1 / 2 ^ 16" by (simp add: pow2_def)
    have "\<bar>z - x * ln x\<bar> = x * \<bar>L - ln x\<bar>"
      using x1 by (simp add: z_def abs_mult right_diff_distrib [symmetric])
    also have "\<dots> \<le> 2 ^ 32 * (1 / 2 ^ 45)" using x1 x32 dL by (intro mult_mono) simp_all
    finally have e3: "\<bar>z - x * ln x\<bar> \<le> 1 / 2 ^ 13" by simp
    have "(1 :: real) / 2 ^ 16 \<le> 1 / 4" "(1 :: real) / 2 ^ 13 \<le> 1 / 4" by simp_all
    then have "\<bar>f64 z - x * ln x\<bar> < 1" using e2 e3 by linarith
    then have "\<bar>\<lfloor>f64 z\<rfloor> - \<lfloor>x * ln x\<rfloor>\<bar> \<le> 1" by (rule floor_near)
    then have "\<bar>max 256 \<lfloor>f64 z\<rfloor> - max 256 \<lfloor>x * ln x\<rfloor>\<bar> \<le> 1" by (rule max_near)
    moreover have f0: "0 \<le> f64 z" using z0 by (rule f64_nonneg)
    ultimately have "\<bar>W - max 256 \<lfloor>x * ln x\<rfloor>\<bar> \<le> 1"
      unfolding W_def L_def [symmetric] z_def [symmetric] trunc_nonneg [OF f0] by simp
    then show ?thesis using d by simp
  qed
  have "length (buckets hk) = depth hk * width hk" "length (heap hk) = nat k" "decay hk = dec"
    by (simp_all add: hk_def)
  then show ?thesis
    using new W Dp near unfolding x_def W_def Dp_def by (intro exI [of _ hk]) simp
qed

subsection \<open>Count\<close>

text \<open>
  \<open>Count\<close> reads the heap only: for a flow that is the \<open>Flow\<close> field of no heap slot
  it returns \<open>(0, false)\<close>, whatever the counter matrix contains. So it does for a flow
  that was inserted and then evicted by a heavier one, while the matrix still holds its
  count.
\<close>

lemma Count_no_slot:
  assumes "\<forall>e \<in> set (heap hk). Flow e \<noteq> x"
  shows "Count_of hk x = (0, False) \<and> Count_of (hk\<lparr>buckets := bs\<rparr>) x = (0, False)"
  using assms by (simp add: Count_of_def Count_in_absent)

lemma Sample_a: "Sample example_hash sketch1 ''a'' 1 (\<lambda>_. 0) 0 = Inr (True, sketch1_a, 0)"
  by (simp add: eval_defs sketch1_def sketch1_a_def)

lemma Sample_ab: "Sample example_hash sketch1_a ''b'' 5 (\<lambda>_. 0) 0 = Inr (True, sketch1_ab, 0)"
  by (simp add: eval_defs sketch1_def sketch1_a_def sketch1_ab_def)

lemma Count_after_eviction:
  "Sample example_hash sketch1 ''a'' 1 (\<lambda>_. 0) 0 = Inr (True, sketch1_a, 0) \<and>
   Count_of sketch1_a ''a'' = (1, True) \<and>
   Sample example_hash sketch1_a ''b'' 5 (\<lambda>_. 0) 0 = Inr (True, sketch1_ab, 0) \<and>
   ''a'' \<notin> set (map Flow (heap sketch1_ab)) \<and>
   count (buckets sketch1_ab ! 97) = 1 \<and>
   Count_of sketch1_ab ''a'' = (0, False)"
proof -
  have h: "\<forall>e \<in> set (heap sketch1_ab). Flow e \<noteq> ''a''"
    by (simp add: sketch1_ab_def sketch1_def)
  have "Count_of sketch1_a ''a'' = (1, True)"
    by (simp add: Count_of_def sketch1_a_def sketch1_def)
  moreover have "count (buckets sketch1_ab ! 97) = 1"
    by (simp add: sketch1_ab_def sketch1_def)
  moreover have "''a'' \<notin> set (map Flow (heap sketch1_ab))"
    by (simp add: sketch1_ab_def sketch1_def)
  ultimately show ?thesis
    using Count_no_slot [OF h] Sample_a Sample_ab by simp
qed

lemma replicate_2: "replicate 2 x = [x, x]"
  by (simp add: eval_nat_numeral)

lemma Sample_2a:
  "Sample example_hash (sketch_small 2) ''a'' 1 (\<lambda>_. 0) 0 = Inr (True, sketch2_a, 0)"
  by (simp add: eval_defs sketch_small_def sketch2_a_def replicate_2)

text \<open>
  Claim C9 fails on the code at the empty flow. A slot of the tracker that no flow
  occupies holds the zero value of \<open>FlowCount\<close>, whose flow is \<open>""\<close>, and \<open>Count\<close>
  compares flows only: on the sketch of \<open>New(2, 0.9)\<close> after \<open>Sample("a", 1)\<close> the
  tracker holds \<open>"a"\<close> alone, as \<open>Top\<close> reports, and \<open>Count("")\<close> is \<open>(0, true)\<close>
  for a flow that was never sampled. (For a flow that is the \<open>Flow\<close> field of no slot,
  an evicted one included, \<open>Count\<close> is \<open>(0, false)\<close> and the matrix is not read:
  \<open>Count_no_slot\<close>, \<open>Count_after_eviction\<close>.)
\<close>

theorem Count_finds_unoccupied_slot:
  "New Log_rn 2 (9 / 10) = Inr (sketch_small 2) \<and>
   Sample example_hash (sketch_small 2) ''a'' 1 (\<lambda>_. 0) 0 = Inr (True, sketch2_a, 0) \<and>
   Top sketch2_a = [\<lparr>Flow = ''a'', Count = 1\<rparr>] \<and>
   Count_of sketch2_a [] = (0, True)"
proof -
  have "Top sketch2_a = [\<lparr>Flow = ''a'', Count = 1\<rparr>]"
    by (simp add: Top_def TopInto_def sort_Stable_def reverse_byCount_def sketch2_a_def)
  moreover have "Count_of sketch2_a [] = (0, True)"
    by (simp add: Count_of_def sketch2_a_def)
  ultimately show ?thesis using Sample_2a by (simp add: New_small)
qed

subsection \<open>Reset and DecayAll\<close>

lemma Reset_like_new:
  assumes "New Log k dec = Inr hk0"
    and "decay hk = dec" and "depth hk = depth hk0" and "width hk = width hk0"
    and "length (buckets hk) = length (buckets hk0)" and "length (heap hk) = length (heap hk0)"
  shows "Reset hk = hk0"
proof -
  have "buckets hk0 = replicate (length (buckets hk0)) bucket0 \<and>
        heap hk0 = replicate (length (heap hk0)) FlowCount0 \<and> decay hk0 = dec"
    using assms(1) by (auto simp: New_def Let_def split: if_splits)
  then show ?thesis
    using assms(2-) by (simp add: Reset_eq)
qed

lemma Top_Reset: "Top (Reset hk) = []"
  by (rule Top_all_zero) (simp add: Reset_eq FlowCount0_def)

lemma Count_Reset: "Count_of (Reset hk) x = (0, x = [] \<and> heap hk \<noteq> [])"
  by (simp add: Count_of_def Reset_eq Count_in_replicate0)

lemma scale_u32_zero: "scale_u32 0 c = 0"
  by (simp add: scale_u32_def trunc_def f64_0)

text \<open>
  Claim C5 fails on the code at the empty flow: an unoccupied heap slot holds the flow
  \<open>""\<close>, and \<open>Count\<close> compares flows only. After \<open>Reset\<close>, as on the fresh
  sketch, \<open>Count("")\<close> is \<open>(0, true)\<close>.
\<close>

theorem Count_empty_flow_after_Reset:
  "New Log_rn 1 (9 / 10) = Inr sketch1 \<and> Reset sketch1_ab = sketch1 \<and> Top (Reset sketch1_ab) = [] \<and>
   Count_of (Reset sketch1_ab) [] = (0, True) \<and> Count_of sketch1 [] = (0, True)"
  by (simp add: New_1 Top_Reset Count_Reset) (simp add: Reset_eq sketch1_ab_def sketch1_def Count_of_def FlowCount0_def)

lemma Sample_a90: "Sample example_hash sketch1 ''a'' 90 (\<lambda>_. 0) 0 = Inr (True, sketch1_a90, 0)"
  by (simp add: eval_defs sketch1_def sketch1_a90_def)

text \<open>
  Claim C6, as the specification states it, fails: the code computes \<open>1 - p\<close> and the
  product in \<open>float64\<close>, and each of the two operations rounds. After
  \<open>Sample("a", 90)\<close> on the sketch of \<open>New(1, 0.9)\<close>, \<open>DecayAll(0.3)\<close> leaves the
  count \<open>62\<close>: \<open>1 - 0.3\<close> rounds to a float just below \<open>0.7\<close>, the product to a float
  just below \<open>63\<close>. The count times \<open>1 - p\<close> with the fraction dropped is \<open>63\<close>,
  for the float \<open>0.3\<close> as for the fraction \<open>3 / 10\<close>.
\<close>

theorem DecayAll_not_exact_product:
  "Sample example_hash sketch1 ''a'' 90 (\<lambda>_. 0) 0 = Inr (True, sketch1_a90, 0) \<and>
   Count_of (DecayAll sketch1_a90 (f64 (3 / 10))) ''a'' = (62, True) \<and>
   spec_scale (f64 (3 / 10)) 90 = 63 \<and> spec_scale (3 / 10) 90 = 63"
proof -
  have p: "0 < f64 (3 / 10)" "f64 (3 / 10) \<le> 1" by (simp_all add: f64_eval)
  have s: "scale_u32 (f64 (1 - f64 (3 / 10))) 90 = 62"
    by (simp add: scale_u32_def trunc_def f64_eval)
  have "Count_of (DecayAll sketch1_a90 (f64 (3 / 10))) ''a'' = (62, True)"
    by (simp add: DecayAll_scale p s Count_of_def sketch1_a90_def sketch1_def)
  moreover have "spec_scale (f64 (3 / 10)) 90 = 63" by (simp add: spec_scale_def trunc_def f64_eval)
  moreover have "spec_scale (3 / 10) 90 = 63" by (simp add: spec_scale_def trunc_def)
  ultimately show ?thesis using Sample_a90 by simp
qed

text \<open>
  Claim C6, amended: \<open>DecayAll(p)\<close> leaves the sketch as it is for \<open>p \<le> 0\<close>, is
  \<open>Reset\<close> for \<open>p > 1\<close>, and for \<open>p\<close> in \<open>(0, 1]\<close> replaces the count \<open>c\<close> of
  every matrix cell and of every heap entry by \<open>trunc(fl(c * fl(1 - p)))\<close>, where
  \<open>fl\<close> rounds to the nearest \<open>float64\<close>, keeping fingerprints, flows, sizes and
  decay. The new count is at most \<open>c\<close> and within one of \<open>c * (1 - p)\<close> with the
  fraction dropped.
\<close>

theorem DecayAll_float_cases:
  "(p \<le> 0 \<longrightarrow> DecayAll hk p = hk) \<and>
   (1 < p \<longrightarrow> DecayAll hk p = Reset hk) \<and>
   (0 < p \<and> p \<le> 1 \<longrightarrow>
      decay (DecayAll hk p) = decay hk \<and> depth (DecayAll hk p) = depth hk \<and>
      width (DecayAll hk p) = width hk \<and>
      length (buckets (DecayAll hk p)) = length (buckets hk) \<and>
      length (heap (DecayAll hk p)) = length (heap hk) \<and>
      (\<forall>i < length (buckets hk).
         fingerprint (buckets (DecayAll hk p) ! i) = fingerprint (buckets hk ! i) \<and>
         uint (count (buckets (DecayAll hk p) ! i)) = float_scale p (uint (count (buckets hk ! i))) \<and>
         count (buckets (DecayAll hk p) ! i) \<le> count (buckets hk ! i) \<and>
         \<bar>uint (count (buckets (DecayAll hk p) ! i)) - spec_scale p (uint (count (buckets hk ! i)))\<bar> \<le> 1) \<and>
      (\<forall>i < length (heap hk).
         Flow (heap (DecayAll hk p) ! i) = Flow (heap hk ! i) \<and>
         uint (Count (heap (DecayAll hk p) ! i)) = float_scale p (uint (Count (heap hk ! i))) \<and>
         Count (heap (DecayAll hk p) ! i) \<le> Count (heap hk ! i) \<and>
         \<bar>uint (Count (heap (DecayAll hk p) ! i)) - spec_scale p (uint (Count (heap hk ! i)))\<bar> \<le> 1))"
proof (intro conjI impI)
  assume "p \<le> 0"
  then show "DecayAll hk p = hk" by (simp add: DecayAll_def)
next
  assume "1 < p"
  then show "DecayAll hk p = Reset hk" by (simp add: DecayAll_def)
next
  assume p: "0 < p \<and> p \<le> 1"
  then have p1: "0 < p" and p2: "p \<le> 1" by simp_all
  have eq: "DecayAll hk p =
      hk\<lparr>buckets := map (\<lambda>b. b\<lparr>count := scale_u32 (f64 (1 - p)) (count b)\<rparr>) (buckets hk),
         heap := map (\<lambda>e. e\<lparr>Count := scale_u32 (f64 (1 - p)) (Count e)\<rparr>) (heap hk)\<rparr>"
    using p by (simp add: DecayAll_scale)
  note s = scale_u32_float_scale [OF p1 p2]
  show "decay (DecayAll hk p) = decay hk" "depth (DecayAll hk p) = depth hk"
    "width (DecayAll hk p) = width hk"
    "length (buckets (DecayAll hk p)) = length (buckets hk)"
    "length (heap (DecayAll hk p)) = length (heap hk)"
    by (simp_all add: eq)
  show "\<forall>i < length (buckets hk).
         fingerprint (buckets (DecayAll hk p) ! i) = fingerprint (buckets hk ! i) \<and>
         uint (count (buckets (DecayAll hk p) ! i)) = float_scale p (uint (count (buckets hk ! i))) \<and>
         count (buckets (DecayAll hk p) ! i) \<le> count (buckets hk ! i) \<and>
         \<bar>uint (count (buckets (DecayAll hk p) ! i)) - spec_scale p (uint (count (buckets hk ! i)))\<bar> \<le> 1"
    using s by (simp add: eq)
  show "\<forall>i < length (heap hk).
         Flow (heap (DecayAll hk p) ! i) = Flow (heap hk ! i) \<and>
         uint (Count (heap (DecayAll hk p) ! i)) = float_scale p (uint (Count (heap hk ! i))) \<and>
         Count (heap (DecayAll hk p) ! i) \<le> Count (heap hk ! i) \<and>
         \<bar>uint (Count (heap (DecayAll hk p) ! i)) - spec_scale p (uint (Count (heap hk ! i)))\<bar> \<le> 1"
    using s by (simp add: eq)
qed

text \<open>
  The repository's test of \<open>DecayAll\<close>, and the sketch of the counterexample: with
  \<open>0.3\<close> the counts \<open>6, 13, 100, 50, 25\<close> become \<open>4, 9, 70, 35, 17\<close>, and \<open>90\<close>
  becomes \<open>62\<close>, one below the \<open>63\<close> of the exact product.
\<close>

theorem DecayAll_float_cases_witness:
  "DecayAll sketch5 0 = sketch5 \<and> DecayAll sketch5 2 = Reset sketch5 \<and>
   0 < f64 (3 / 10) \<and> f64 (3 / 10) \<le> 1 \<and>
   map (\<lambda>i. uint (Count (heap (DecayAll sketch5 (f64 (3 / 10))) ! i))) [0, 1, 2, 3, 4] = [4, 9, 70, 35, 17] \<and>
   map Flow (heap (DecayAll sketch5 (f64 (3 / 10)))) = [''b'', ''c'', ''f'', ''e'', ''d''] \<and>
   uint (count (buckets (DecayAll sketch5 (f64 (3 / 10))) ! 102)) = 70 \<and>
   fingerprint (buckets (DecayAll sketch5 (f64 (3 / 10))) ! 102) = 101 \<and>
   uint (Count (heap (DecayAll sketch1_a90 (f64 (3 / 10))) ! 0)) = 62 \<and>
   float_scale (f64 (3 / 10)) 90 = 62 \<and> spec_scale (f64 (3 / 10)) 90 = 63"
proof -
  define r :: real where "r = f64 (3 / 10)"
  have rv: "r = 5404319552844595 / 18014398509481984" by (simp add: r_def f64_eval)
  have p: "0 < r \<and> r \<le> 1" by (simp add: rv)
  have fs: "float_scale r 6 = 4" "float_scale r 13 = 9" "float_scale r 100 = 70"
    "float_scale r 50 = 35" "float_scale r 25 = 17"
    and fs90: "float_scale r 90 = 62"
    unfolding rv by (simp_all add: float_scale_def trunc_def f64_eval)
  have ss: "spec_scale r 90 = 63" unfolding rv by (simp add: spec_scale_def trunc_def)
  note t = DecayAll_float_cases [of _ sketch5]
  have a: "DecayAll sketch5 0 = sketch5" using t [of 0] by simp
  have b: "DecayAll sketch5 2 = Reset sketch5" using t [of 2] by simp
  have h: "\<forall>i < length (heap sketch5).
         Flow (heap (DecayAll sketch5 r) ! i) = Flow (heap sketch5 ! i) \<and>
         uint (Count (heap (DecayAll sketch5 r) ! i)) = float_scale r (uint (Count (heap sketch5 ! i)))"
    using t [of r] p by blast
  have l: "length (heap (DecayAll sketch5 r)) = length (heap sketch5)"
    using t [of r] p by blast
  have c: "\<forall>i < length (buckets sketch5).
         fingerprint (buckets (DecayAll sketch5 r) ! i) = fingerprint (buckets sketch5 ! i) \<and>
         uint (count (buckets (DecayAll sketch5 r) ! i)) = float_scale r (uint (count (buckets sketch5 ! i)))"
    using t [of r] p by blast
  have h5: "length (heap sketch5) = 5" by (simp add: sketch5_def)
  have "uint (Count (heap (DecayAll sketch5 r) ! i)) = float_scale r (uint (Count (heap sketch5 ! i)))"
    if "i < 5" for i
    using h h5 that by simp
  then have c1: "map (\<lambda>i. uint (Count (heap (DecayAll sketch5 r) ! i))) [0, 1, 2, 3, 4] = [4, 9, 70, 35, 17]"
    by (simp add: sketch5_def fs)
  have "Flow (heap (DecayAll sketch5 r) ! i) = Flow (heap sketch5 ! i)" if "i < 5" for i
    using h h5 that by simp
  then have "map Flow (heap (DecayAll sketch5 r)) = map Flow (heap sketch5)"
    using l h5 by (intro nth_equalityI) simp_all
  then have c2: "map Flow (heap (DecayAll sketch5 r)) = [''b'', ''c'', ''f'', ''e'', ''d'']"
    by (simp add: sketch5_def)
  have "(102 :: nat) < length (buckets sketch5)" by (simp add: sketch5_def)
  with c have "fingerprint (buckets (DecayAll sketch5 r) ! 102) = fingerprint (buckets sketch5 ! 102) \<and>
         uint (count (buckets (DecayAll sketch5 r) ! 102)) =
           float_scale r (uint (count (buckets sketch5 ! 102)))" by blast
  then have c3: "uint (count (buckets (DecayAll sketch5 r) ! 102)) = 70 \<and>
   fingerprint (buckets (DecayAll sketch5 r) ! 102) = 101"
    by (simp add: sketch5_def fs)
  have "(0 :: nat) < length (heap sketch1_a90)" by (simp add: sketch1_a90_def sketch1_def)
  then have "uint (Count (heap (DecayAll sketch1_a90 r) ! 0)) =
      float_scale r (uint (Count (heap sketch1_a90 ! 0)))"
    using DecayAll_float_cases [of r sketch1_a90] p by blast
  then have c4: "uint (Count (heap (DecayAll sketch1_a90 r) ! 0)) = 62"
    by (simp add: sketch1_a90_def sketch1_def fs90)
  show ?thesis using a b c1 c2 c3 c4 p fs90 ss unfolding r_def by simp
qed

text \<open>
  Claim C10: a \<open>DecayAll\<close> with a fraction in \<open>(0, 1]\<close> keeps every fingerprint of the
  matrix and every flow of the tracker. After \<open>DecayAll(1.0)\<close> every count is zero,
  \<open>Top\<close> is empty, and \<open>Count\<close> still finds every flow that held a tracker slot, with
  count zero; \<open>Reset\<close> puts the empty flow into every slot, so that \<open>Count\<close> finds no
  other flow afterwards.
\<close>

theorem DecayAll_keeps_identities:
  "(0 < p \<and> p \<le> 1 \<longrightarrow>
      map fingerprint (buckets (DecayAll hk p)) = map fingerprint (buckets hk) \<and>
      map Flow (heap (DecayAll hk p)) = map Flow (heap hk)) \<and>
   (\<forall>b \<in> set (buckets (DecayAll hk 1)). count b = 0) \<and>
   (\<forall>e \<in> set (heap (DecayAll hk 1)). Count e = 0) \<and>
   (\<forall>e \<in> set (heap hk). Count_of (DecayAll hk 1) (Flow e) = (0, True)) \<and>
   Top (DecayAll hk 1) = [] \<and>
   map Flow (heap (Reset hk)) = replicate (length (heap hk)) [] \<and>
   (\<forall>e \<in> set (heap hk). Flow e \<noteq> [] \<longrightarrow> Count_of (Reset hk) (Flow e) = (0, False))"
proof -
  have one: "DecayAll hk 1 =
      hk\<lparr>buckets := map (\<lambda>b. b\<lparr>count := 0\<rparr>) (buckets hk),
         heap := map (\<lambda>e. e\<lparr>Count := 0\<rparr>) (heap hk)\<rparr>"
    by (simp add: DecayAll_scale scale_u32_zero f64_0)
  have z: "\<forall>e \<in> set (heap (DecayAll hk 1)). Count e = 0"
    by (simp add: one)
  have found: "Count_of (DecayAll hk 1) (Flow e) = (0, True)" if "e \<in> set (heap hk)" for e
  proof -
    have "e\<lparr>Count := 0\<rparr> \<in> set (heap (DecayAll hk 1))" using that by (simp add: one)
    from Count_in_zero [OF z this] show ?thesis by (simp add: Count_of_def)
  qed
  have keep: "0 < p \<and> p \<le> 1 \<longrightarrow>
      map fingerprint (buckets (DecayAll hk p)) = map fingerprint (buckets hk) \<and>
      map Flow (heap (DecayAll hk p)) = map Flow (heap hk)"
    by (simp add: DecayAll_scale o_def)
  have zb: "\<forall>b \<in> set (buckets (DecayAll hk 1)). count b = 0"
    by (simp add: one)
  have top: "Top (DecayAll hk 1) = []"
    using z by (rule Top_all_zero)
  have slots: "map Flow (heap (Reset hk)) = replicate (length (heap hk)) []"
    by (simp add: Reset_eq FlowCount0_def)
  have lost: "\<forall>e \<in> set (heap hk). Flow e \<noteq> [] \<longrightarrow> Count_of (Reset hk) (Flow e) = (0, False)"
    by (simp add: Count_Reset)
  show ?thesis
    using keep zb z found top slots lost by blast
qed

theorem DecayAll_keeps_identities_witness:
  "map Flow (heap (DecayAll sketch5 (3 / 10))) = [''b'', ''c'', ''f'', ''e'', ''d''] \<and>
   Count_of (DecayAll sketch5 1) ''f'' = (0, True) \<and>
   Top (DecayAll sketch5 1) = [] \<and>
   Count_of (Reset sketch5) ''f'' = (0, False) \<and>
   Count_of sketch5 ''f'' = (100, True)"
proof -
  note t = DecayAll_keeps_identities [of _ sketch5]
  have m: "\<lparr>Flow = ''f'', Count = 100\<rparr> \<in> set (heap sketch5)" by (simp add: sketch5_def)
  have "map Flow (heap (DecayAll sketch5 (3 / 10))) = map Flow (heap sketch5)"
    using t [of "3 / 10"] by simp
  then have a: "map Flow (heap (DecayAll sketch5 (3 / 10))) = [''b'', ''c'', ''f'', ''e'', ''d'']"
    by (simp add: sketch5_def)
  have "\<forall>e \<in> set (heap sketch5). Count_of (DecayAll sketch5 1) (Flow e) = (0, True)"
    using t [of 1] by blast
  with m have b: "Count_of (DecayAll sketch5 1) ''f'' = (0, True)" by fastforce
  have c: "Top (DecayAll sketch5 1) = []" using t [of 1] by blast
  have "\<forall>e \<in> set (heap sketch5). Flow e \<noteq> [] \<longrightarrow> Count_of (Reset sketch5) (Flow e) = (0, False)"
    using t [of 1] by blast
  with m have d: "Count_of (Reset sketch5) ''f'' = (0, False)" by fastforce
  have e: "Count_of sketch5 ''f'' = (100, True)" by (simp add: Count_of_def sketch5_def)
  show ?thesis using a b c d e by simp
qed

subsection \<open>The loop over the rows\<close>

lemma slot_Inr: "w \<noteq> 0 \<Longrightarrow> slot H flow row w = Inr (H flow row mod w)"
  by (simp add: slot_def)

lemma slot_index:
  assumes "(of_nat W :: uint32) \<noteq> 0" and "i < D"
  shows "unat (H flow row mod (of_nat W :: uint32)) + i * W < D * W"
proof -
  let ?w = "of_nat W :: uint32"
  have "H flow row mod ?w < ?w"
    using assms(1) by (simp add: word_mod_less_divisor word_greater_zero_iff)
  then have "unat (H flow row mod ?w) < unat ?w" by (simp add: word_less_nat_alt)
  also have "unat ?w \<le> W" by (simp add: unat_of_nat)
  finally have "unat (H flow row mod ?w) + i * W < (i + 1) * W" by simp
  also have "\<dots> \<le> D * W" using assms(2) by (intro mult_le_mono1) simp
  finally show ?thesis .
qed

lemma sample_rows_step:
  assumes "(of_nat (width hk) :: uint32) \<noteq> 0" and "length bs = depth hk * width hk"
    and "i < depth hk"
  shows "sample_rows H hk flow fp incr rnd i bs maxCount pos =
     (let j = unat (H flow (of_nat i) mod (of_nat (width hk))) + i * width hk in
      case sample_cell (decay hk) fp rnd (bs ! j) incr maxCount pos of
        (b', maxCount', pos') \<Rightarrow>
          sample_rows H hk flow fp incr rnd (i + 1) (bs[j := b']) maxCount' pos')"
  using assms slot_index [OF assms(1) assms(3), of H flow "of_nat i"]
  by (subst sample_rows.simps) (simp add: slot_Inr Let_def)

lemma sample_rows_done:
  "\<not> i < depth hk \<Longrightarrow> sample_rows H hk flow fp incr rnd i bs maxCount pos = Inr (bs, maxCount, pos)"
  by (subst sample_rows.simps) simp

lemma sample_cell_zero_weight:
  "count b = 0 \<Longrightarrow> sample_cell dec fp rnd b 0 0 pos = (b\<lparr>fingerprint := fp\<rparr>, 0, pos)"
  by (simp add: sample_cell_def max_u32_def)

lemma sample_rows_zero_weight:
  assumes "(of_nat (width hk) :: uint32) \<noteq> 0" and "length bs = depth hk * width hk"
    and "\<forall>b \<in> set bs. count b = 0"
  shows "\<exists>bs'. sample_rows H hk flow fp 0 rnd i bs 0 pos = Inr (bs', 0, pos) \<and>
           length bs' = length bs \<and> (\<forall>b \<in> set bs'. count b = 0)"
  using assms
proof (induction "depth hk - i" arbitrary: i bs)
  case 0
  then show ?case by (simp add: sample_rows_done)
next
  case (Suc n)
  then have i: "i < depth hk" by simp
  let ?j = "unat (H flow (of_nat i) mod (of_nat (width hk))) + i * width hk"
  have j: "?j < length bs"
    using slot_index [OF Suc.prems(1) i] Suc.prems(2) by simp
  then have c: "count (bs ! ?j) = 0" using Suc.prems(3) by simp
  let ?bs = "bs[?j := (bs ! ?j)\<lparr>fingerprint := fp\<rparr>]"
  have step: "sample_rows H hk flow fp 0 rnd i bs 0 pos = sample_rows H hk flow fp 0 rnd (i + 1) ?bs 0 pos"
    using sample_rows_step [OF Suc.prems(1,2) i] c by (simp add: sample_cell_zero_weight Let_def)
  have z: "\<forall>b \<in> set ?bs. count b = 0"
  proof
    fix b assume "b \<in> set ?bs"
    then have "b \<in> insert ((bs ! ?j)\<lparr>fingerprint := fp\<rparr>) (set bs)"
      using set_update_subset_insert by fastforce
    then show "count b = 0" using c Suc.prems(3) by auto
  qed
  have "n = depth hk - (i + 1)" using Suc.hyps(2) by simp
  from Suc.hyps(1) [OF this Suc.prems(1) _ z] Suc.prems(2)
  show ?case by (simp add: step)
qed

lemma Fix_single: "Fix [e] 0 = [e]"
  by (simp add: Fix_def down_def down_loop.simps up.simps)

lemma Add_zero_weight: "Add H hk flow 0 rnd pos = Inr (hk, pos)"
  by (simp add: Add_def)

text \<open>
  Claim C3 fails on the code: \<open>Sample\<close> has no guard for a zero increment (the older
  \<open>Add\<close> has one, see \<open>Add_zero_weight\<close>). On the fresh sketch \<open>Sample("a", 0)\<close>
  writes the flow into the root of the heap with count zero and returns \<open>true\<close>, for
  every hash; with \<open>example_hash\<close> it also writes the fingerprint into three cells.
\<close>

theorem Sample_zero_weight_not_noop:
  "(\<exists>bs. Sample H sketch1 ''a'' 0 rnd pos =
      Inr (True, sketch1\<lparr>buckets := bs, heap := [\<lparr>Flow = ''a'', Count = 0\<rparr>]\<rparr>, pos)) \<and>
   heap sketch1 = [\<lparr>Flow = [], Count = 0\<rparr>] \<and>
   Sample example_hash sketch1 ''a'' 0 rnd pos = Inr (True, sketch1_a0, pos) \<and>
   sketch1_a0 \<noteq> sketch1 \<and>
   Count_of sketch1 ''a'' = (0, False) \<and> Count_of sketch1_a0 ''a'' = (0, True)"
proof -
  have w: "(of_nat (width sketch1) :: uint32) \<noteq> 0" by (simp add: sketch1_def)
  have l: "length (buckets sketch1) = depth sketch1 * width sketch1" by (simp add: sketch1_def)
  have z: "\<forall>b \<in> set (buckets sketch1). count b = 0" by (simp add: sketch1_def bucket0_def)
  obtain bs where bs: "sample_rows H sketch1 ''a'' (fingerprint_of H ''a'') 0 rnd 0 (buckets sketch1) 0 pos = Inr (bs, 0, pos)"
    using sample_rows_zero_weight [OF w l z] by blast
  have a: "Sample H sketch1 ''a'' 0 rnd pos =
      Inr (True, sketch1\<lparr>buckets := bs, heap := [\<lparr>Flow = ''a'', Count = 0\<rparr>]\<rparr>, pos)"
    using bs by (simp add: Sample_def Let_def)
      (simp add: sketch1_def Min_heap_def FlowCount0_def Find_def Fix_single)
  have b: "Sample example_hash sketch1 ''a'' 0 rnd pos = Inr (True, sketch1_a0, pos)"
    by (simp add: eval_defs sketch1_def sketch1_a0_def)
  have c: "sketch1_a0 \<noteq> sketch1"
  proof
    assume "sketch1_a0 = sketch1"
    then have "heap sketch1_a0 = heap sketch1" by simp
    then show False by (simp add: sketch1_a0_def sketch1_def FlowCount0_def)
  qed
  show ?thesis
    using a b c by (auto simp: Count_of_def sketch1_def sketch1_a0_def FlowCount0_def)
qed

subsection \<open>Top\<close>

lemma descending_insert:
  "descending ys \<Longrightarrow> descending (stable_insert reverse_byCount x ys)"
proof (induction ys)
  case Nil
  then show ?case by simp
next
  case (Cons y ys)
  show ?case
  proof (cases "reverse_byCount x y")
    case True
    then have "Count y < Count x" by (simp add: reverse_byCount_def)
    moreover have "\<forall>z \<in> set ys. Count z \<le> Count y" using Cons.prems by simp
    ultimately have "\<forall>z \<in> set (y # ys). Count z \<le> Count x" by fastforce
    then show ?thesis using True Cons.prems by simp
  next
    case False
    then have "Count x \<le> Count y" by (simp add: reverse_byCount_def)
    then show ?thesis using False Cons by (auto simp: set_stable_insert)
  qed
qed

lemma filter_insert:
  "descending ys \<Longrightarrow>
   filter (\<lambda>e. Count e = c) (stable_insert reverse_byCount x ys) =
   filter (\<lambda>e. Count e = c) ys @ filter (\<lambda>e. Count e = c) [x]"
proof (induction ys)
  case Nil
  then show ?case by simp
next
  case (Cons y ys)
  show ?case
  proof (cases "reverse_byCount x y")
    case True
    then have lt: "Count y < Count x" by (simp add: reverse_byCount_def)
    have "\<forall>z \<in> set ys. Count z \<le> Count y" using Cons.prems by simp
    with lt have "\<forall>z \<in> set (y # ys). Count z \<noteq> Count x" by fastforce
    then have "Count x = c \<Longrightarrow> filter (\<lambda>e. Count e = c) (y # ys) = []"
      by (auto simp: filter_empty_conv)
    then show ?thesis using True by auto
  next
    case False
    then show ?thesis using Cons by simp
  qed
qed

lemma foldl_insert_props:
  "descending acc \<Longrightarrow>
   descending (foldl (\<lambda>acc x. stable_insert reverse_byCount x acc) acc xs) \<and>
   filter (\<lambda>e. Count e = c) (foldl (\<lambda>acc x. stable_insert reverse_byCount x acc) acc xs) =
   filter (\<lambda>e. Count e = c) acc @ filter (\<lambda>e. Count e = c) xs"
proof (induction xs arbitrary: acc)
  case Nil
  then show ?case by simp
next
  case (Cons x xs)
  from Cons.IH [OF descending_insert [OF Cons.prems]] filter_insert [OF Cons.prems]
  show ?case by simp
qed

lemma descending_sort_Stable: "descending (sort_Stable reverse_byCount xs)"
  using foldl_insert_props [of "[]"] by (simp add: sort_Stable_def)

lemma filter_sort_Stable:
  "filter (\<lambda>e. Count e = c) (sort_Stable reverse_byCount xs) = filter (\<lambda>e. Count e = c) xs"
  using foldl_insert_props [of "[]"] by (simp add: sort_Stable_def)

lemma take_trim_end:
  "descending s \<Longrightarrow> e \<le> length s \<Longrightarrow>
   take (trim_end s e) s = filter (\<lambda>x. Count x \<noteq> 0) (take e s)"
proof (induction e)
  case 0
  then show ?case by simp
next
  case (Suc e)
  then have e: "e < length s" by simp
  show ?case
  proof (cases "Count (s ! e) > 0")
    case True
    have "Count x \<noteq> 0" if "x \<in> set (take (Suc e) s)" for x
    proof -
      from that obtain i where i: "i < Suc e" "x = s ! i"
        using e by (auto simp: in_set_conv_nth)
      have "Count (s ! e) \<le> Count (s ! i)"
      proof (cases "i = e")
        case True
        then show ?thesis by simp
      next
        case False
        then have "i < e" using i by simp
        then show ?thesis using Suc.prems(1) e by (simp add: sorted_wrt_iff_nth_less)
      qed
      then show ?thesis using True i by auto
    qed
    then have "filter (\<lambda>x. Count x \<noteq> 0) (take (Suc e) s) = take (Suc e) s"
      by (simp add: filter_id_conv)
    then show ?thesis using True by simp
  next
    case False
    then have "Count (s ! e) = 0" by (simp add: word_greater_zero_iff)
    then show ?thesis using Suc e False by (simp add: take_Suc_conv_app_nth)
  qed
qed

lemma TopInto_eq:
  "TopInto hk buf = filter (\<lambda>x. Count x \<noteq> 0) (sort_Stable reverse_byCount (heap hk))"
  using take_trim_end [OF descending_sort_Stable order_refl, of "heap hk"]
  by (simp add: TopInto_def Let_def)

text \<open>
  Claim C4: \<open>Top\<close> returns at most as many entries as the tracker has slots (\<open>K\<close>), in
  descending order of count, none with count zero; the entries of each non-zero count
  are exactly those of the heap, in the heap's order. The result depends on the heap
  alone: \<open>TopInto\<close> gives it for any buffer, and the model of \<open>Top\<close> returns no changed
  sketch because the code only reads it.
\<close>

theorem Top_sorted_stable:
  "length (Top hk) \<le> length (heap hk) \<and>
   sorted_wrt (\<lambda>a b. Count b \<le> Count a) (Top hk) \<and>
   (\<forall>e \<in> set (Top hk). Count e \<noteq> 0) \<and>
   (\<forall>c. c \<noteq> 0 \<longrightarrow> filter (\<lambda>e. Count e = c) (Top hk) = filter (\<lambda>e. Count e = c) (heap hk)) \<and>
   TopInto hk buf = Top hk \<and> Top (hk\<lparr>buckets := bs\<rparr>) = Top hk"
proof -
  let ?s = "sort_Stable reverse_byCount (heap hk)"
  have eq: "Top hk = filter (\<lambda>x. Count x \<noteq> 0) ?s" by (simp add: Top_def TopInto_eq)
  have "length (Top hk) \<le> length ?s" by (simp add: eq)
  then have a: "length (Top hk) \<le> length (heap hk)" by (simp add: length_sort_Stable)
  have b: "sorted_wrt (\<lambda>a b. Count b \<le> Count a) (Top hk)"
    unfolding eq by (rule sorted_wrt_filter) (rule descending_sort_Stable)
  have c: "\<forall>e \<in> set (Top hk). Count e \<noteq> 0" by (simp add: eq)
  have d: "filter (\<lambda>e. Count e = c) (Top hk) = filter (\<lambda>e. Count e = c) (heap hk)" if "c \<noteq> 0" for c
  proof -
    have "filter (\<lambda>e. Count e = c) (Top hk) = filter (\<lambda>e. Count e = c \<and> Count e \<noteq> 0) ?s"
      by (simp add: eq conj_commute)
    also have "\<dots> = filter (\<lambda>e. Count e = c) ?s"
      using that by (intro filter_cong) auto
    finally show ?thesis by (simp add: filter_sort_Stable)
  qed
  have e: "TopInto hk buf = Top hk" by (simp add: Top_def TopInto_eq)
  have f: "Top (hk\<lparr>buckets := bs\<rparr>) = Top hk" by (simp add: Top_def TopInto_eq)
  show ?thesis using a b c d e f by blast
qed

theorem Top_sorted_stable_witness:
  "Top sketch_ties = [\<lparr>Flow = ''b'', Count = 5\<rparr>, \<lparr>Flow = ''a'', Count = 3\<rparr>, \<lparr>Flow = ''c'', Count = 3\<rparr>] \<and>
   filter (\<lambda>e. Count e = 3) (Top sketch_ties) = [\<lparr>Flow = ''a'', Count = 3\<rparr>, \<lparr>Flow = ''c'', Count = 3\<rparr>] \<and>
   length (Top sketch_ties) \<le> 4 \<and> length (heap sketch_ties) = 4"
proof -
  note t = Top_sorted_stable [of sketch_ties]
  have "filter (\<lambda>e. Count e = 3) (Top sketch_ties) = filter (\<lambda>e. Count e = 3) (heap sketch_ties)"
    using t by simp
  then have a: "filter (\<lambda>e. Count e = 3) (Top sketch_ties) = [\<lparr>Flow = ''a'', Count = 3\<rparr>, \<lparr>Flow = ''c'', Count = 3\<rparr>]"
    by (simp add: sketch_ties_def)
  have l: "length (heap sketch_ties) = 4" by (simp add: sketch_ties_def)
  have b: "length (Top sketch_ties) \<le> 4" using t l by simp
  have c: "Top sketch_ties = [\<lparr>Flow = ''b'', Count = 5\<rparr>, \<lparr>Flow = ''a'', Count = 3\<rparr>, \<lparr>Flow = ''c'', Count = 3\<rparr>]"
    by (simp add: Top_def TopInto_def sort_Stable_def reverse_byCount_def sketch_ties_def)
  show ?thesis using a b c l by simp
qed

subsection \<open>\<open>heap.Fix\<close> restores the heap property\<close>

lemma length_Swap [simp]: "length (Swap h i j) = length h"
  by (simp add: Swap_def)

lemma mset_Swap: "i < length h \<Longrightarrow> j < length h \<Longrightarrow> mset (Swap h i j) = mset h"
  by (simp add: Swap_def mset_swap)

lemma nth_Swap:
  "i < length h \<Longrightarrow> j < length h \<Longrightarrow> k < length h \<Longrightarrow>
   Swap h i j ! k = (if k = j then h ! i else if k = i then h ! j else h ! k)"
  by (simp add: Swap_def nth_list_update)

lemma heap_okI: "except_at h i \<Longrightarrow> parent_le h i \<Longrightarrow> children_ge h i \<Longrightarrow> heap_ok h"
  unfolding heap_ok_def except_at_def parent_le_def children_ge_def
  by metis

lemma up_heap_ok:
  "except_at h j \<Longrightarrow> children_ge h j \<Longrightarrow> j < length h \<Longrightarrow> heap_ok (up h j)"
proof (induction h j rule: up.induct)
  case (1 h j)
  define i where "i = (j - 1) div 2"
  have unfold: "up h j = (if i = j \<or> \<not> Less h j i then h else up (Swap h i j) i)"
    by (subst up.simps) (simp add: Let_def i_def)
  show ?case
  proof (cases "i = j \<or> \<not> Less h j i")
    case True
    then have "parent_le h j" by (auto simp: parent_le_def Less_def i_def)
    then have "heap_ok h" using 1 heap_okI by blast
    then show ?thesis using True unfold by simp
  next
    case False
    then have j0: "0 < j" and lt: "Count (h ! j) < Count (h ! i)"
      by (auto simp: Less_def i_def intro: Nat.gr0I)
    have ij: "i < j" using j0 by (simp add: i_def)
    have jl: "j < length h" by (rule "1.prems"(3))
    have il: "i < length h" using ij jl by simp
    let ?h = "Swap h i j"
    note nth = nth_Swap [OF il jl]
    have E1: "Count (h ! ((c - 1) div 2)) \<le> Count (h ! c)"
      if "c < length h" "0 < c" "c \<noteq> j" "(c - 1) div 2 \<noteq> j" for c
      using "1.prems"(1) that by (simp add: except_at_def)
    have E2: "Count (h ! i) \<le> Count (h ! c)"
      if "c < length h" "0 < c" "(c - 1) div 2 = j" for c
      using "1.prems"(1) j0 that by (simp add: except_at_def i_def)
    have ch: "children_ge ?h i"
      unfolding children_ge_def
    proof (intro allI impI)
      fix c assume c: "c < length ?h" "0 < c \<and> (c - 1) div 2 = i"
      then have cl: "c < length h" by simp
      have ci: "c \<noteq> i" using c by auto
      show "Count (?h ! i) \<le> Count (?h ! c)"
      proof (cases "c = j")
        case True
        then show ?thesis using lt ij il jl by (simp add: nth)
      next
        case False
        then have "Count (h ! i) \<le> Count (h ! c)" using E1 [OF cl] c ij by auto
        then show ?thesis using lt False il cl ij ci by (simp add: nth)
      qed
    qed
    have ex: "except_at ?h i"
      unfolding except_at_def
    proof (intro conjI allI impI)
      fix c assume c: "c < length ?h" "0 < c \<and> c \<noteq> i \<and> (c - 1) div 2 \<noteq> i"
      then have cl: "c < length h" by simp
      have cj: "c \<noteq> j" using c by (auto simp: i_def)
      have pl: "(c - 1) div 2 < length h" using cl c by auto
      show "Count (?h ! ((c - 1) div 2)) \<le> Count (?h ! c)"
      proof (cases "(c - 1) div 2 = j")
        case True
        then show ?thesis using E2 [OF cl] c cj cl jl il ij by (simp add: nth)
      next
        case False
        then show ?thesis using E1 [OF cl] c cj cl pl by (simp add: nth)
      qed
    next
      fix c assume c: "c < length ?h" "0 < c \<and> 0 < i \<and> (c - 1) div 2 = i"
      then have cl: "c < length h" by simp
      define p where "p = (i - 1) div 2"
      have i0: "0 < i" using c by simp
      have pi: "p < i" using i0 by (simp add: p_def)
      then have pl: "p < length h" using il by simp
      have pk: "Count (h ! p) \<le> Count (h ! i)"
        using E1 [OF il] c ij pi by (auto simp: p_def)
      have ci: "c \<noteq> i" using c by auto
      have "Count (?h ! p) \<le> Count (?h ! c)"
      proof (cases "c = j")
        case True
        then show ?thesis using pk pi ij pl jl by (simp add: nth)
      next
        case False
        have "Count (h ! i) \<le> Count (h ! c)" using E1 [OF cl] c False ij by auto
        then show ?thesis using pk pi ij pl cl False ci by (simp add: nth)
      qed
      then show "Count (?h ! ((i - 1) div 2)) \<le> Count (?h ! c)" by (simp add: p_def)
    qed
    have "heap_ok (up ?h i)"
      using "1.IH" [OF i_def False] ex ch il by simp
    then show ?thesis using False unfold by simp
  qed
qed


lemma down_loop_shape:
  "n = length h \<Longrightarrow>
   length (fst (down_loop h i n)) = length h \<and> mset (fst (down_loop h i n)) = mset h \<and>
   i \<le> snd (down_loop h i n) \<and>
   (snd (down_loop h i n) = i \<longrightarrow> fst (down_loop h i n) = h \<and> children_ge h i)"
proof (induction h i n rule: down_loop.induct)
  case (1 h i n)
  define j1 where "j1 = 2 * i + 1"
  define j where "j = (if j1 + 1 < n \<and> Less h (j1 + 1) j1 then j1 + 1 else j1)"
  have unfold: "down_loop h i n =
      (if j1 \<ge> n then (h, i) else if \<not> Less h j i then (h, i) else down_loop (Swap h i j) j n)"
    by (subst down_loop.simps) (simp add: Let_def j1_def j_def)
  have jc: "j = 2 * i + 1 \<or> j = 2 * i + 2" by (simp add: j_def j1_def)
  show ?case
  proof (cases "j1 \<ge> n")
    case True
    have "children_ge h i"
      unfolding children_ge_def using True "1.prems" by (auto simp: j1_def)
    then show ?thesis using True unfold by simp
  next
    case nle: False
    then have jn: "j < n" by (auto simp: j_def)
    have ij: "i < j" using jc by auto
    show ?thesis
    proof (cases "Less h j i")
      case False
      then have ji: "Count (h ! i) \<le> Count (h ! j)" by (simp add: Less_def)
      have "Count (h ! i) \<le> Count (h ! c)" if c: "c < length h" "0 < c" "(c - 1) div 2 = i" for c
      proof -
        have cc: "c = 2 * i + 1 \<or> c = 2 * i + 2" using c by auto
        show ?thesis
        proof (cases "c = j")
          case True
          then show ?thesis using ji by simp
        next
          case False
          then show ?thesis
            using cc jc ji c "1.prems" by (auto simp: j_def j1_def Less_def split: if_splits)
        qed
      qed
      then have "children_ge h i" by (simp add: children_ge_def)
      then show ?thesis using nle False unfold by simp
    next
      case True
      have eq: "down_loop h i n = down_loop (Swap h i j) j n"
        using nle True unfold by simp
      have "n = length (Swap h i j)" using "1.prems" by simp
      from "1.IH" [OF j1_def nle j_def _ this]
      have IH: "length (fst (down_loop (Swap h i j) j n)) = length (Swap h i j) \<and>
        mset (fst (down_loop (Swap h i j) j n)) = mset (Swap h i j) \<and>
        j \<le> snd (down_loop (Swap h i j) j n)"
        using True by simp
      have "mset (Swap h i j) = mset h"
        using jn ij "1.prems" by (intro mset_Swap) simp_all
      then show ?thesis using IH ij by (simp add: eq)
    qed
  qed
qed

lemma down_loop_heap_ok:
  "n = length h \<Longrightarrow> except_at h i \<Longrightarrow> parent_le h i \<Longrightarrow> i < n \<Longrightarrow>
   heap_ok (fst (down_loop h i n))"
proof (induction h i n rule: down_loop.induct)
  case (1 h i n)
  define j1 where "j1 = 2 * i + 1"
  define j where "j = (if j1 + 1 < n \<and> Less h (j1 + 1) j1 then j1 + 1 else j1)"
  have unfold: "down_loop h i n =
      (if j1 \<ge> n then (h, i) else if \<not> Less h j i then (h, i) else down_loop (Swap h i j) j n)"
    by (subst down_loop.simps) (simp add: Let_def j1_def j_def)
  have same: "heap_ok h" if "snd (down_loop h i n) = i"
    using down_loop_shape [OF "1.prems"(1), of i] that "1.prems"(2,3) heap_okI by blast
  show ?case
  proof (cases "j1 \<ge> n \<or> \<not> Less h j i")
    case True
    then have "down_loop h i n = (h, i)" using unfold by auto
    then show ?thesis using same by simp
  next
    case False
    then have nle: "\<not> n \<le> j1" and lt: "Count (h ! j) < Count (h ! i)"
      by (auto simp: Less_def)
    have jc: "j = 2 * i + 1 \<or> j = 2 * i + 2" by (simp add: j_def j1_def)
    have jn: "j < n" using nle by (auto simp: j_def)
    have ij: "i < j" using jc by auto
    have pj: "(j - 1) div 2 = i" using jc by auto
    have il: "i < length h" and jl: "j < length h" using "1.prems" jn by simp_all
    let ?h = "Swap h i j"
    note nth = nth_Swap [OF il jl]
    have E1: "Count (h ! ((c - 1) div 2)) \<le> Count (h ! c)"
      if "c < length h" "0 < c" "c \<noteq> i" "(c - 1) div 2 \<noteq> i" for c
      using "1.prems"(2) that by (simp add: except_at_def)
    have E2: "Count (h ! ((i - 1) div 2)) \<le> Count (h ! c)"
      if "c < length h" "0 < c" "0 < i" "(c - 1) div 2 = i" for c
      using "1.prems"(2) that by (simp add: except_at_def)
    have sib: "Count (h ! j) \<le> Count (h ! c)"
      if c: "c < length h" "0 < c" "(c - 1) div 2 = i" for c
    proof -
      have "c = 2 * i + 1 \<or> c = 2 * i + 2" using c by auto
      then show ?thesis
        using c "1.prems"(1) by (auto simp: j_def j1_def Less_def split: if_splits)
    qed
    have pl: "parent_le ?h j"
    proof -
      have "Count (?h ! i) \<le> Count (?h ! j)" using lt ij il jl by (simp add: nth)
      then show ?thesis unfolding parent_le_def pj by simp
    qed
    have ex: "except_at ?h j"
      unfolding except_at_def
    proof (intro conjI allI impI)
      fix c assume c: "c < length ?h" "0 < c \<and> c \<noteq> j \<and> (c - 1) div 2 \<noteq> j"
      then have cl: "c < length h" by simp
      define p where "p = (c - 1) div 2"
      have c0: "0 < c" using c by simp
      have pc: "p < c" using c0 by (simp add: p_def)
      then have ppl: "p < length h" using cl by simp
      have "Count (?h ! p) \<le> Count (?h ! c)"
      proof (cases "c = i")
        case True
        then have "0 < i" using c by simp
        from E2 [OF jl _ this pj] ij have "Count (h ! ((i - 1) div 2)) \<le> Count (h ! j)" by simp
        then show ?thesis using True pc ij ppl il c by (simp add: nth p_def)
      next
        case ci: False
        show ?thesis
        proof (cases "p = i")
          case True
          then have "Count (h ! j) \<le> Count (h ! c)" using sib [OF cl] c by (simp add: p_def)
          then show ?thesis using True ci c cl il ij by (simp add: nth)
        next
          case False
          then have "Count (h ! p) \<le> Count (h ! c)" using E1 [OF cl] c ci by (simp add: p_def)
          moreover have "p \<noteq> j" using c by (simp add: p_def)
          ultimately show ?thesis using False ci c cl ppl by (simp add: nth)
        qed
      qed
      then show "Count (?h ! ((c - 1) div 2)) \<le> Count (?h ! c)" by (simp add: p_def)
    next
      fix c assume c: "c < length ?h" "0 < c \<and> 0 < j \<and> (c - 1) div 2 = j"
      then have cl: "c < length h" by simp
      have cj: "j < c" using c by auto
      have "Count (h ! j) \<le> Count (h ! c)"
        using E1 [OF cl] c cj ij by auto
      then have "Count (?h ! i) \<le> Count (?h ! c)"
        using cj ij cl il by (simp add: nth)
      then show "Count (?h ! ((j - 1) div 2)) \<le> Count (?h ! c)" unfolding pj .
    qed
    have eq: "down_loop h i n = down_loop ?h j n"
      using False unfold by auto
    have "heap_ok (fst (down_loop ?h j n))"
      using "1.IH" [OF j1_def nle j_def _ _ ex pl jn] False "1.prems"(1) by simp
    then show ?thesis by (simp add: eq)
  qed
qed

lemma up_shape: "j < length h \<Longrightarrow> length (up h j) = length h \<and> mset (up h j) = mset h"
proof (induction h j rule: up.induct)
  case (1 h j)
  define i where "i = (j - 1) div 2"
  have unfold: "up h j = (if i = j \<or> \<not> Less h j i then h else up (Swap h i j) i)"
    by (subst up.simps) (simp add: Let_def i_def)
  show ?case
  proof (cases "i = j \<or> \<not> Less h j i")
    case True
    then show ?thesis using unfold by simp
  next
    case False
    have "i \<le> j" by (simp add: i_def)
    then have il: "i < length h" using "1.prems" by simp
    have "length (up (Swap h i j) i) = length (Swap h i j) \<and> mset (up (Swap h i j) i) = mset (Swap h i j)"
      using "1.IH" [OF i_def False] il by simp
    then show ?thesis using False unfold il "1.prems" by (simp add: mset_Swap)
  qed
qed

lemma down_loop_moved:
  assumes "snd (down_loop h i n) \<noteq> i"
  shows "\<exists>j < n. 0 < j \<and> (j - 1) div 2 = i \<and> Count (h ! j) < Count (h ! i)"
proof -
  define j1 where "j1 = 2 * i + 1"
  define j where "j = (if j1 + 1 < n \<and> Less h (j1 + 1) j1 then j1 + 1 else j1)"
  have unfold: "down_loop h i n =
      (if j1 \<ge> n then (h, i) else if \<not> Less h j i then (h, i) else down_loop (Swap h i j) j n)"
    by (subst down_loop.simps) (simp add: Let_def j1_def j_def)
  have a: "\<not> n \<le> j1" and b: "Less h j i" using assms unfold by (auto split: if_splits)
  have "j < n" using a by (auto simp: j_def)
  moreover have "0 < j \<and> (j - 1) div 2 = i" by (auto simp: j_def j1_def)
  ultimately show ?thesis using b by (auto simp: Less_def)
qed

lemma except_at_update:
  assumes "heap_ok h" and "i < length h"
  shows "except_at (h[i := e]) i"
  unfolding except_at_def
proof (intro conjI allI impI)
  fix c assume c: "c < length (h[i := e])" "0 < c \<and> c \<noteq> i \<and> (c - 1) div 2 \<noteq> i"
  then have "Count (h ! ((c - 1) div 2)) \<le> Count (h ! c)"
    using assms(1) by (simp add: heap_ok_def)
  then show "Count (h[i := e] ! ((c - 1) div 2)) \<le> Count (h[i := e] ! c)"
    using c by simp
next
  fix c assume c: "c < length (h[i := e])" "0 < c \<and> 0 < i \<and> (c - 1) div 2 = i"
  then have cl: "c < length h" by simp
  have i0: "0 < i" using c by simp
  have ci: "i < c" using c by auto
  have "Count (h ! ((i - 1) div 2)) \<le> Count (h ! i)"
    using assms i0 by (simp add: heap_ok_def)
  moreover have "Count (h ! i) \<le> Count (h ! c)"
    using assms(1) cl c by (auto simp: heap_ok_def)
  moreover have "(i - 1) div 2 \<noteq> i" using i0 by auto
  ultimately show "Count (h[i := e] ! ((i - 1) div 2)) \<le> Count (h[i := e] ! c)"
    using ci by simp
qed

lemma Fix_restores:
  assumes "except_at h i" and "i < length h"
  shows "heap_ok (Fix h i) \<and> length (Fix h i) = length h \<and> mset (Fix h i) = mset h"
proof -
  define r where "r = down_loop h i (length h)"
  note shape = down_loop_shape [OF refl, of h i, folded r_def]
  have Fx: "Fix h i = (if snd r = i then up (fst r) i else fst r)"
    using shape by (auto simp: Fix_def down_def r_def split: prod.splits)
  show ?thesis
  proof (cases "snd r = i")
    case True
    then have "fst r = h" and "children_ge h i" using shape by simp_all
    then show ?thesis
      using True Fx assms up_heap_ok up_shape by simp
  next
    case False
    then obtain j where j: "j < length h" "0 < j" "(j - 1) div 2 = i" "Count (h ! j) < Count (h ! i)"
      using down_loop_moved [of h i "length h"] by (auto simp: r_def)
    have "Count (h ! ((i - 1) div 2)) \<le> Count (h ! i)" if "0 < i"
    proof -
      have "Count (h ! ((i - 1) div 2)) \<le> Count (h ! j)"
        using assms(1) j that by (simp add: except_at_def)
      then show ?thesis using j(4) by simp
    qed
    then have "parent_le h i" by (simp add: parent_le_def)
    then have "heap_ok (fst r)"
      unfolding r_def using assms by (intro down_loop_heap_ok) simp_all
    then show ?thesis using False Fx shape by simp
  qed
qed

lemma Fix_update:
  assumes "heap_ok h" and "i < length h"
  shows "heap_ok (Fix (h[i := e]) i) \<and> length (Fix (h[i := e]) i) = length h \<and>
         mset (Fix (h[i := e]) i) = mset (h[i := e])"
  using Fix_restores [OF except_at_update [OF assms], of e] assms(2) by simp

lemma heap_root_min:
  assumes "heap_ok h"
  shows "j < length h \<Longrightarrow> Count (h ! 0) \<le> Count (h ! j)"
proof (induction j rule: less_induct)
  case (less j)
  show ?case
  proof (cases "j = 0")
    case True
    then show ?thesis by simp
  next
    case False
    then have p: "(j - 1) div 2 < j" by simp
    have "Count (h ! ((j - 1) div 2)) \<le> Count (h ! j)"
      using assms less.prems False by (simp add: heap_ok_def)
    moreover have "Count (h ! 0) \<le> Count (h ! ((j - 1) div 2))"
      using less.IH [OF p] p less.prems by simp
    ultimately show ?thesis by simp
  qed
qed

lemma Find_from_cases:
  "(Find_from es flow k = -1 \<and> flow \<notin> Flow ` set es) \<or>
   (\<exists>i < length es. Find_from es flow k = k + int i \<and> Flow (es ! i) = flow \<and>
      (\<forall>m < i. Flow (es ! m) \<noteq> flow))"
proof (induction es arbitrary: k)
  case Nil
  then show ?case by simp
next
  case (Cons e es)
  show ?case
  proof (cases "Flow e = flow")
    case True
    then show ?thesis by auto
  next
    case False
    from Cons [of "k + 1"] show ?thesis
    proof
      assume "Find_from es flow (k + 1) = -1 \<and> flow \<notin> Flow ` set es"
      then show ?thesis using False by auto
    next
      assume "\<exists>i < length es. Find_from es flow (k + 1) = k + 1 + int i \<and> Flow (es ! i) = flow \<and>
        (\<forall>m < i. Flow (es ! m) \<noteq> flow)"
      then obtain i where i: "i < length es" "Find_from es flow (k + 1) = k + 1 + int i"
        "Flow (es ! i) = flow" "\<forall>m < i. Flow (es ! m) \<noteq> flow" by blast
      have "\<forall>m < Suc i. Flow ((e # es) ! m) \<noteq> flow"
        using i(4) False by (auto simp: less_Suc_eq_0_disj)
      then have "Suc i < length (e # es) \<and> Find_from (e # es) flow k = k + int (Suc i) \<and>
        Flow ((e # es) ! Suc i) = flow \<and> (\<forall>m < Suc i. Flow ((e # es) ! m) \<noteq> flow)"
        using i False by simp
      then show ?thesis by blast
    qed
  qed
qed

lemma Find_cases:
  "(Find h flow = -1 \<and> flow \<notin> Flow ` set h) \<or>
   (\<exists>i < length h. Find h flow = int i \<and> Flow (h ! i) = flow \<and> (\<forall>m < i. Flow (h ! m) \<noteq> flow))"
  using Find_from_cases [of h flow 0] by (simp add: Find_def)

subsection \<open>The matrix update\<close>

lemma max_u32_max: "max_u32 a b = max a b"
  by (auto simp: max_u32_def max_def)

lemma decay_loop_spec:
  "decay_loop dec fp rnd b incr m pos =
     (case spec_decay dec fp rnd b (unat incr) pos of
        (b', c, pos') \<Rightarrow> (b', (case c of None \<Rightarrow> m | Some v \<Rightarrow> max_u32 m v), pos'))"
proof (induction "unat incr" arbitrary: incr b pos)
  case 0
  then have "incr = 0" by (simp add: unat_eq_zero)
  then show ?case by (subst decay_loop.simps) simp
next
  case (Suc n)
  then have nz: "incr \<noteq> 0" by auto
  then have pos: "incr > 0" by (simp add: word_greater_zero_iff)
  have n: "n = unat (incr - 1)"
    using Suc.hyps(2) nz by (simp add: unat_minus_one)
  have rep: "of_nat (Suc n) = incr" unfolding Suc.hyps(2) by simp
  have IH: "decay_loop dec fp rnd b' (incr - 1) m p =
     (case spec_decay dec fp rnd b' n p of
        (b', c, pos') \<Rightarrow> (b', (case c of None \<Rightarrow> m | Some v \<Rightarrow> max_u32 m v), pos'))" for b' p
    using Suc.hyps(1) [OF n] n by simp
  show ?case
    using pos rep
    by (subst decay_loop.simps) (simp add: Suc.hyps(2) [symmetric] IH Let_def del: of_nat_Suc)
qed

lemma sample_cell_spec:
  "sample_cell dec fp rnd b incr m pos =
     (case spec_cell dec fp rnd b incr pos of
        (b', c, pos') \<Rightarrow> (b', (case c of None \<Rightarrow> m | Some v \<Rightarrow> max_u32 m v), pos'))"
  by (simp add: sample_cell_def spec_cell_def decay_loop_spec Let_def)

lemma spec_decay_outcome:
  "spec_decay dec fp rnd b n pos = (b', c, pos') \<Longrightarrow> count b \<noteq> 0 \<Longrightarrow>
   (case c of
      None \<Rightarrow> pos' = pos + n \<and> fingerprint b' = fingerprint b \<and> count b' \<noteq> 0 \<and> count b' \<le> count b
    | Some v \<Rightarrow> pos < pos' \<and> pos' \<le> pos + n \<and> b' = \<lparr>fingerprint = fp, count = v\<rparr> \<and>
        v = of_nat (n - (pos' - pos - 1)))"
proof (induction n arbitrary: b pos)
  case 0
  then show ?case by auto
next
  case (Suc n)
  show ?case
  proof (cases "rnd pos < dec ^ unat (count b)")
    case False
    then have "spec_decay dec fp rnd b n (pos + 1) = (b', c, pos')" using Suc.prems by simp
    from Suc.IH [OF this Suc.prems(2)] show ?thesis
      by (cases c) (auto simp: Suc_diff_le)
  next
    case True
    show ?thesis
    proof (cases "count b - 1 = 0")
      case z: True
      then show ?thesis using Suc.prems True by auto
    next
      case nz: False
      let ?b = "b\<lparr>count := count b - 1\<rparr>"
      have r: "spec_decay dec fp rnd ?b n (pos + 1) = (b', c, pos')"
        using Suc.prems True nz by simp
      have "unat (count b - 1) \<le> unat (count b)" using Suc.prems(2) by (simp add: unat_minus_one)
      then have le: "count b - 1 \<le> count b" by (simp add: word_le_nat_alt)
      from Suc.IH [OF r] nz le show ?thesis
        by (cases c) (auto simp: Suc_diff_le)
    qed
  qed
qed

lemma map_fst_spec_rows:
  "map fst (fst (spec_rows H hk flow incr rnd rows pos)) = map (cell_index H hk flow) rows"
proof (induction rows arbitrary: pos)
  case Nil
  then show ?case by simp
next
  case (Cons i rows)
  obtain b' c pos1 where c: "spec_cell (decay hk) (fingerprint_of H flow) rnd
      (buckets hk ! cell_index H hk flow i) incr pos = (b', c, pos1)"
    using prod_cases3 by blast
  obtain rs pos2 where r: "spec_rows H hk flow incr rnd rows pos1 = (rs, pos2)"
    by fastforce
  have "map fst rs = map (cell_index H hk flow) rows"
    using Cons [of pos1] r by simp
  then show ?case by (simp add: c r)
qed

lemma cell_index_row:
  assumes "(of_nat (width hk) :: uint32) \<noteq> 0"
  shows "i * width hk \<le> cell_index H hk flow i \<and> cell_index H hk flow i < (i + 1) * width hk"
  using slot_index [OF assms, of i "i + 1" H flow "of_nat i"] by (simp add: cell_index_def)

lemma foldl_max_spec:
  "foldl (\<lambda>m c. case c of None \<Rightarrow> m | Some v \<Rightarrow> max_u32 m v) m cs = Max (set (m # List.map_filter id cs))"
proof (induction cs arbitrary: m)
  case Nil
  then show ?case by simp
next
  case (Cons c cs)
  show ?case
  proof (cases c)
    case None
    then show ?thesis using Cons by simp
  next
    case (Some v)
    have "Max (set (max m v # xs)) = Max (set (m # v # xs))" for xs :: "uint32 list"
    proof (cases xs)
      case Nil
      then show ?thesis by (simp add: max.commute)
    next
      case (Cons y ys)
      then have "finite (set xs)" "set xs \<noteq> {}" by simp_all
      then show ?thesis by (simp add: max.assoc)
    qed
    then show ?thesis using Some Cons by (simp add: max_u32_max)
  qed
qed

lemma sample_rows_spec:
  assumes W: "(of_nat (width hk) :: uint32) \<noteq> 0"
    and L: "length bs = depth hk * width hk" "length (buckets hk) = depth hk * width hk"
    and A: "\<forall>j < length bs. i * width hk \<le> j \<longrightarrow> bs ! j = buckets hk ! j"
    and S: "spec_rows H hk flow incr rnd [i..<depth hk] pos = (rs, pos')"
  shows "\<exists>bs'. sample_rows H hk flow (fingerprint_of H flow) incr rnd i bs m pos =
            Inr (bs', foldl (\<lambda>m c. case c of None \<Rightarrow> m | Some v \<Rightarrow> max_u32 m v) m (map (snd \<circ> snd) rs), pos') \<and>
          length bs' = length bs \<and>
          (\<forall>k < length rs. bs' ! fst (rs ! k) = fst (snd (rs ! k))) \<and>
          (\<forall>j < length bs. j \<notin> fst ` set rs \<longrightarrow> bs' ! j = bs ! j)"
  using L(1) A S
proof (induction "depth hk - i" arbitrary: i bs m pos rs pos')
  case 0
  then have e: "[i..<depth hk] = []" by simp
  have "spec_rows H hk flow incr rnd [] pos = (rs, pos')" using "0.prems"(3) unfolding e .
  then have "rs = []" "pos' = pos" by simp_all
  moreover have "\<not> i < depth hk" using "0.hyps" by simp
  ultimately show ?case by (simp add: sample_rows_done)
next
  case (Suc n)
  then have i: "i < depth hk" by simp
  define j where "j = cell_index H hk flow i"
  have jr: "i * width hk \<le> j" "j < (i + 1) * width hk"
    using cell_index_row [OF W, of i H flow] by (simp_all add: j_def)
  have "(i + 1) * width hk \<le> depth hk * width hk" using i by (intro mult_le_mono1) simp
  then have jl: "j < length bs" using jr Suc.prems(1) by simp
  have same: "bs ! j = buckets hk ! j" using Suc.prems(2) jl jr by simp
  obtain b' c pos1 where c: "spec_cell (decay hk) (fingerprint_of H flow) rnd (buckets hk ! j) incr pos = (b', c, pos1)"
    using prod_cases3 by blast
  obtain rs' pos2 where r: "spec_rows H hk flow incr rnd [i + 1..<depth hk] pos1 = (rs', pos2)"
    by fastforce
  have rs: "rs = (j, b', c) # rs'" "pos' = pos2"
    using Suc.prems(3) i c r by (simp_all add: upt_conv_Cons j_def)
  define m1 where "m1 = (case c of None \<Rightarrow> m | Some v \<Rightarrow> max_u32 m v)"
  have step: "sample_rows H hk flow (fingerprint_of H flow) incr rnd i bs m pos =
      sample_rows H hk flow (fingerprint_of H flow) incr rnd (i + 1) (bs[j := b']) m1 pos1"
    using sample_rows_step [OF W Suc.prems(1) i] c same
    by (simp add: sample_cell_spec j_def [unfolded cell_index_def, symmetric] m1_def)
  have n: "n = depth hk - (i + 1)" using Suc.hyps(2) by simp
  have L1: "length (bs[j := b']) = depth hk * width hk" using Suc.prems(1) by simp
  have A1: "\<forall>k < length (bs[j := b']). (i + 1) * width hk \<le> k \<longrightarrow> bs[j := b'] ! k = buckets hk ! k"
    using Suc.prems(2) jr by auto
  from Suc.hyps(1) [OF n L1 A1 r, of m1]
  obtain bs' where all: "sample_rows H hk flow (fingerprint_of H flow) incr rnd (i + 1) (bs[j := b']) m1 pos1 =
        Inr (bs', foldl (\<lambda>m c. case c of None \<Rightarrow> m | Some v \<Rightarrow> max_u32 m v) m1 (map (snd \<circ> snd) rs'), pos2) \<and>
      length bs' = length (bs[j := b']) \<and>
      (\<forall>k < length rs'. bs' ! fst (rs' ! k) = fst (snd (rs' ! k))) \<and>
      (\<forall>k < length (bs[j := b']). k \<notin> fst ` set rs' \<longrightarrow> bs' ! k = bs[j := b'] ! k)" ..
  note bs' = all [THEN conjunct1] all [THEN conjunct2, THEN conjunct1]
    all [THEN conjunct2, THEN conjunct2, THEN conjunct1]
    all [THEN conjunct2, THEN conjunct2, THEN conjunct2]
  have later: "(i + 1) * width hk \<le> k" if "k \<in> fst ` set rs'" for k
  proof -
    have "map fst rs' = map (cell_index H hk flow) [i + 1..<depth hk]"
      using map_fst_spec_rows [of H hk flow incr rnd "[i + 1..<depth hk]" pos1] unfolding r by simp
    moreover have "k \<in> set (map fst rs')" using that by simp
    ultimately have "k \<in> set (map (cell_index H hk flow) [i + 1..<depth hk])" by simp
    then obtain i' where "i + 1 \<le> i'" "k = cell_index H hk flow i'" by auto
    then have "(i + 1) * width hk \<le> i' * width hk" "i' * width hk \<le> k"
      using cell_index_row [OF W, of i' H flow] mult_le_mono1 [of "i + 1" i' "width hk"] by simp_all
    then show ?thesis by simp
  qed
  then have jn: "j \<notin> fst ` set rs'" using jr by fastforce
  have a: "bs' ! j = b'" using bs'(4) jn jl by simp
  have b: "\<forall>k < length rs. bs' ! fst (rs ! k) = fst (snd (rs ! k))"
    using a bs'(3) by (simp add: rs All_less_Suc2 nth_Cons')
  have d: "\<forall>k < length bs. k \<notin> fst ` set rs \<longrightarrow> bs' ! k = bs ! k"
    using bs'(4) by (auto simp: rs)
  show ?case
    using bs'(1,2) b d by (simp add: step rs m1_def)
qed

subsection \<open>Sample as a whole\<close>

lemma Min_heap_nonempty: "h \<noteq> [] \<Longrightarrow> Min_heap h = Inr (Count (h ! 0))"
  by (cases h) (simp_all add: Min_heap_def)

lemma Sample_result:
  assumes "heap hk \<noteq> []"
    and "sample_rows H hk flow (fingerprint_of H flow) incr rnd 0 (buckets hk) 0 pos = Inr (bs, m, pos')"
  shows "Sample H hk flow incr rnd pos =
     (if Count (heap hk ! 0) \<le> m then
        (if Find (heap hk) flow > -1
         then Inr (True, hk\<lparr>buckets := bs,
                heap := Fix ((heap hk)[nat (Find (heap hk) flow) := (heap hk ! nat (Find (heap hk) flow))\<lparr>Count := m\<rparr>])
                          (nat (Find (heap hk) flow))\<rparr>, pos')
         else Inr (True, hk\<lparr>buckets := bs, heap := Fix ((heap hk)[0 := \<lparr>Flow = flow, Count = m\<rparr>]) 0\<rparr>, pos'))
      else Inr (False, hk\<lparr>buckets := bs\<rparr>, pos'))"
  using assms by (simp add: Sample_def Min_heap_nonempty Let_def)

lemma sample_rows_total:
  assumes "hk_ok hk"
  shows "\<exists>bs m pos'. sample_rows H hk flow (fingerprint_of H flow) incr rnd 0 (buckets hk) 0 pos = Inr (bs, m, pos') \<and>
           length bs = length (buckets hk)"
proof -
  obtain rs pos' where S: "spec_rows H hk flow incr rnd [0..<depth hk] pos = (rs, pos')"
    by fastforce
  have W: "(of_nat (width hk) :: uint32) \<noteq> 0" and L: "length (buckets hk) = depth hk * width hk"
    using assms by (simp_all add: hk_ok_def)
  have A: "\<forall>j < length (buckets hk). 0 * width hk \<le> j \<longrightarrow> buckets hk ! j = buckets hk ! j" by simp
  from sample_rows_spec [OF W L L A S, where m = 0] show ?thesis by blast
qed

lemma Sample_total:
  assumes "hk_ok hk"
  shows "\<exists>adm hk' pos'. Sample H hk flow incr rnd pos = Inr (adm, hk', pos') \<and> hk_ok hk' \<and>
           decay hk' = decay hk \<and> depth hk' = depth hk \<and> width hk' = width hk \<and>
           length (buckets hk') = length (buckets hk) \<and> length (heap hk') = length (heap hk)"
proof -
  obtain bs m pos' where rows: "sample_rows H hk flow (fingerprint_of H flow) incr rnd 0 (buckets hk) 0 pos = Inr (bs, m, pos')"
    and lb: "length bs = length (buckets hk)"
    using sample_rows_total [OF assms] by blast
  have ne: "heap hk \<noteq> []" and ok: "heap_ok (heap hk)" using assms by (simp_all add: hk_ok_def)
  note res = Sample_result [OF ne rows]
  show ?thesis
  proof (cases "Count (heap hk ! 0) \<le> m")
    case False
    then show ?thesis using res assms lb by (auto simp: hk_ok_def)
  next
    case True
    define i where "i = (if Find (heap hk) flow > -1 then nat (Find (heap hk) flow) else 0)"
    define e where "e = (if Find (heap hk) flow > -1 then (heap hk ! i)\<lparr>Count := m\<rparr> else \<lparr>Flow = flow, Count = m\<rparr>)"
    have il: "i < length (heap hk)"
      using Find_cases [of "heap hk" flow] ne by (auto simp: i_def)
    have s: "Sample H hk flow incr rnd pos = Inr (True, hk\<lparr>buckets := bs, heap := Fix ((heap hk)[i := e]) i\<rparr>, pos')"
      using res True by (simp add: i_def e_def)
    from Fix_update [OF ok il, of e] show ?thesis
      using s assms lb by (auto simp: hk_ok_def)
  qed
qed

lemma hk_ok_Reset: "hk_ok hk \<Longrightarrow> hk_ok (Reset hk)"
  by (auto simp: hk_ok_def Reset_eq heap_ok_def)

lemma scale_u32_mono:
  assumes "0 \<le> q" "q \<le> 1" "a \<le> b"
  shows "scale_u32 q a \<le> scale_u32 q b"
proof -
  have "uint a \<le> uint b" using assms(3) by (simp add: word_le_def)
  then have "real_of_int (uint a) \<le> real_of_int (uint b)" by (rule of_int_le_iff [THEN iffD2])
  then have "real_of_int (uint a) * q \<le> real_of_int (uint b) * q"
    using assms(1) by (rule mult_right_mono)
  moreover have "0 \<le> real_of_int (uint a)" by (rule of_int_0_le_iff [THEN iffD2]) (rule uint_ge_0)
  then have "0 \<le> real_of_int (uint a) * q" using assms(1) by (rule mult_nonneg_nonneg)
  ultimately have "f64 (real_of_int (uint a) * q) \<le> f64 (real_of_int (uint b) * q)"
    by (intro f64_mono)
  then have "\<lfloor>f64 (real_of_int (uint a) * q)\<rfloor> \<le> \<lfloor>f64 (real_of_int (uint b) * q)\<rfloor>"
    by (rule floor_mono)
  then show ?thesis using scale_u32_uint [OF assms(1,2)] by (simp add: word_le_def)
qed

lemma hk_ok_DecayAll: "hk_ok hk \<Longrightarrow> hk_ok (DecayAll hk p)"
proof -
  assume ok: "hk_ok hk"
  consider "p \<le> 0" | "1 < p" | "0 < p" "p \<le> 1" by linarith
  then show ?thesis
  proof cases
    case 1
    then show ?thesis using ok by (simp add: DecayAll_def)
  next
    case 2
    then show ?thesis using ok hk_ok_Reset by (simp add: DecayAll_def)
  next
    case 3
    then have q: "0 \<le> f64 (1 - p)" "f64 (1 - p) \<le> 1" using f64_unit [of "1 - p"] by simp_all
    have "heap_ok (map (\<lambda>e. e\<lparr>Count := scale_u32 (f64 (1 - p)) (Count e)\<rparr>) (heap hk))"
      using ok scale_u32_mono [OF q] by (auto simp: hk_ok_def heap_ok_def)
    then show ?thesis using ok 3 by (simp add: DecayAll_scale hk_ok_def)
  qed
qed

lemmas run_defs = eval_defs Let_def decay_loop.simps power_divide

lemma Sample_c_rejected: "Sample example_hash sketch2_ab ''c'' 1 (\<lambda>_. 0) 0 = Inr (False, sketch2_abc, 0)"
  by (simp add: run_defs sketch2_ab_def sketch2_abc_def word_le_nat_alt)

lemma Sample_a_found: "Sample example_hash sketch2_ab ''a'' 1 (\<lambda>_. 0) 0 = Inr (True, sketch2_aab, 0)"
  by (simp add: run_defs sketch2_ab_def sketch2_aab_def)

lemma Sample_c_admitted: "Sample example_hash sketch2_abc ''c'' 1 (\<lambda>_. 0) 0 = Inr (True, sketch2_abcc, 0)"
  by (simp add: run_defs sketch2_ab_def sketch2_abc_def sketch2_abcc_def)

lemma Sample_zzm: "Sample example_hash sketch2_ab ''zzm'' 5 example_draws 0 = Inr (True, sketch2_zzm, 13)"
  by (simp add: run_defs sketch2_ab_def sketch2_zzm_def example_draws_def)

lemma hk_ok_sketch2_ab: "hk_ok sketch2_ab"
  by (simp add: hk_ok_def heap_ok_def sketch2_ab_def All_less_Suc)

lemma hk_ok_sketch2_abc: "hk_ok sketch2_abc"
  by (simp add: hk_ok_def heap_ok_def sketch2_ab_def sketch2_abc_def All_less_Suc)

lemma spec_decay_unfold:
  "spec_decay dec fp rnd b n pos =
     (if n = 0 then (b, None, pos)
      else if rnd pos < dec ^ unat (count b) then
        (if count b - 1 = 0
         then (\<lparr>fingerprint = fp, count = of_nat n\<rparr>, Some (of_nat n), pos + 1)
         else spec_decay dec fp rnd (b\<lparr>count := count b - 1\<rparr>) (n - 1) (pos + 1))
      else spec_decay dec fp rnd b (n - 1) (pos + 1))"
  by (cases n) simp_all

lemma spec_rows_zzm:
  "spec_rows example_hash sketch2_ab ''zzm'' 5 example_draws [0..<depth sketch2_ab] 0 =
     ([(97, \<lparr>fingerprint = 352, count = 3\<rparr>, Some 3),
       (354, \<lparr>fingerprint = 96, count = 1\<rparr>, None),
       (611, \<lparr>fingerprint = 96, count = 3\<rparr>, None)], 13)"
  by (simp add: sketch2_ab_def upt_conv_Cons cell_index_def example_hash_def fingerprint_of_def
      spec_cell_def bucket0_def example_draws_def spec_decay_unfold power_divide)

text \<open>
  Claim C1: on a well-formed sketch the loop over the rows of \<open>Sample\<close> does what the
  specification's rule says, row by row, each row on its own cell of the matrix as it
  was before the call (\<open>spec_rows\<close>, \<open>spec_cell\<close>, \<open>spec_decay\<close>): the selected cells
  get their new contents, every other cell is unchanged, the \<open>maxCount\<close> is the maximum
  of the counts written, and the matrix is the one \<open>Sample\<close> returns.
\<close>

theorem Sample_matrix_update:
  assumes "hk_ok hk" and "spec_rows H hk flow incr rnd [0..<depth hk] pos = (rs, pos')"
  shows "\<exists>bs. sample_rows H hk flow (fingerprint_of H flow) incr rnd 0 (buckets hk) 0 pos =
             Inr (bs, spec_max (map (snd \<circ> snd) rs), pos') \<and>
           (\<exists>adm h. Sample H hk flow incr rnd pos = Inr (adm, hk\<lparr>buckets := bs, heap := h\<rparr>, pos')) \<and>
           length bs = length (buckets hk) \<and>
           map fst rs = map (cell_index H hk flow) [0..<depth hk] \<and>
           (\<forall>i < depth hk. bs ! cell_index H hk flow i = fst (snd (rs ! i))) \<and>
           (\<forall>j < length bs. (\<forall>i < depth hk. j \<noteq> cell_index H hk flow i) \<longrightarrow> bs ! j = buckets hk ! j)"
proof -
  have W: "(of_nat (width hk) :: uint32) \<noteq> 0" and L: "length (buckets hk) = depth hk * width hk"
    and ne: "heap hk \<noteq> []"
    using assms(1) by (simp_all add: hk_ok_def)
  have A: "\<forall>j < length (buckets hk). 0 * width hk \<le> j \<longrightarrow> buckets hk ! j = buckets hk ! j" by simp
  from sample_rows_spec [OF W L L A assms(2), where m = 0]
  obtain bs where all: "sample_rows H hk flow (fingerprint_of H flow) incr rnd 0 (buckets hk) 0 pos =
        Inr (bs, foldl (\<lambda>m c. case c of None \<Rightarrow> m | Some v \<Rightarrow> max_u32 m v) 0 (map (snd \<circ> snd) rs), pos') \<and>
      length bs = length (buckets hk) \<and>
      (\<forall>k < length rs. bs ! fst (rs ! k) = fst (snd (rs ! k))) \<and>
      (\<forall>j < length (buckets hk). j \<notin> fst ` set rs \<longrightarrow> bs ! j = buckets hk ! j)" ..
  have mx: "foldl (\<lambda>m c. case c of None \<Rightarrow> m | Some v \<Rightarrow> max_u32 m v) 0 (map (snd \<circ> snd) rs) =
      spec_max (map (snd \<circ> snd) rs)"
    by (simp add: foldl_max_spec spec_max_def)
  have rows: "sample_rows H hk flow (fingerprint_of H flow) incr rnd 0 (buckets hk) 0 pos =
      Inr (bs, spec_max (map (snd \<circ> snd) rs), pos')"
    using all mx by simp
  have idx: "map fst rs = map (cell_index H hk flow) [0..<depth hk]"
    using map_fst_spec_rows [of H hk flow incr rnd "[0..<depth hk]" pos] unfolding assms(2) by simp
  then have len: "length rs = depth hk" by (metis length_map length_upt minus_nat.diff_0)
  have ith: "fst (rs ! i) = cell_index H hk flow i" if "i < depth hk" for i
  proof -
    have "map fst rs ! i = map (cell_index H hk flow) [0..<depth hk] ! i" using idx by simp
    then show ?thesis using that len by simp
  qed
  have cells: "\<forall>i < depth hk. bs ! cell_index H hk flow i = fst (snd (rs ! i))"
    using all len ith by simp
  have "fst ` set rs = cell_index H hk flow ` {0..<depth hk}"
    using idx by (metis list.set_map set_upt)
  then have out: "j \<notin> fst ` set rs" if "\<forall>i < depth hk. j \<noteq> cell_index H hk flow i" for j
    using that by auto
  have frame: "\<forall>j < length bs. (\<forall>i < depth hk. j \<noteq> cell_index H hk flow i) \<longrightarrow> bs ! j = buckets hk ! j"
  proof (intro allI impI)
    fix j assume j: "j < length bs" "\<forall>i < depth hk. j \<noteq> cell_index H hk flow i"
    have "j < length (buckets hk)" using j(1) all by simp
    then show "bs ! j = buckets hk ! j" using all out [OF j(2)] by blast
  qed
  have "\<exists>adm h. Sample H hk flow incr rnd pos = Inr (adm, hk\<lparr>buckets := bs, heap := h\<rparr>, pos')"
  proof (cases "Count (heap hk ! 0) \<le> spec_max (map (snd \<circ> snd) rs)")
    case True
    then show ?thesis using Sample_result [OF ne rows] by (cases "Find (heap hk) flow > -1") auto
  next
    case False
    then have "Sample H hk flow incr rnd pos = Inr (False, hk\<lparr>buckets := bs, heap := heap hk\<rparr>, pos')"
      using Sample_result [OF ne rows] by simp
    then show ?thesis by blast
  qed
  then show ?thesis using rows all idx cells frame by blast
qed

theorem Sample_matrix_update_witness:
  "hk_ok sketch2_ab \<and>
   (\<exists>bs. sample_rows example_hash sketch2_ab ''zzm'' (fingerprint_of example_hash ''zzm'') 5
            example_draws 0 (buckets sketch2_ab) 0 0 = Inr (bs, 3, 13) \<and>
      bs ! 97 = \<lparr>fingerprint = 352, count = 3\<rparr> \<and>
      bs ! 354 = \<lparr>fingerprint = 96, count = 1\<rparr> \<and>
      bs ! 611 = \<lparr>fingerprint = 96, count = 3\<rparr> \<and>
      bs ! 98 = buckets sketch2_ab ! 98) \<and>
   buckets sketch2_ab ! 97 = \<lparr>fingerprint = 96, count = 3\<rparr> \<and>
   Sample example_hash sketch2_ab ''zzm'' 5 example_draws 0 = Inr (True, sketch2_zzm, 13)"
proof -
  from Sample_matrix_update [OF hk_ok_sketch2_ab spec_rows_zzm]
  obtain bs where all: "sample_rows example_hash sketch2_ab ''zzm'' (fingerprint_of example_hash ''zzm'') 5
        example_draws 0 (buckets sketch2_ab) 0 0 =
        Inr (bs, spec_max (map (snd \<circ> snd)
          [(97 :: nat, \<lparr>fingerprint = 352, count = 3\<rparr>, Some 3),
           (354, \<lparr>fingerprint = 96, count = 1\<rparr>, None),
           (611, \<lparr>fingerprint = 96, count = 3\<rparr>, None)]), 13)"
     and cells: "\<forall>i < depth sketch2_ab. bs ! cell_index example_hash sketch2_ab ''zzm'' i =
        fst (snd ([(97 :: nat, \<lparr>fingerprint = 352, count = 3\<rparr>, Some 3),
           (354, \<lparr>fingerprint = 96, count = 1\<rparr>, None),
           (611, \<lparr>fingerprint = 96, count = 3\<rparr>, None :: uint32 option)] ! i))"
     and frame: "\<forall>j < length bs. (\<forall>i < depth sketch2_ab. j \<noteq> cell_index example_hash sketch2_ab ''zzm'' i) \<longrightarrow>
        bs ! j = buckets sketch2_ab ! j"
     and len: "length bs = length (buckets sketch2_ab)"
    by blast
  have d: "depth sketch2_ab = 3" by (simp add: sketch2_ab_def)
  have ci: "cell_index example_hash sketch2_ab ''zzm'' 0 = 97"
    "cell_index example_hash sketch2_ab ''zzm'' 1 = 354"
    "cell_index example_hash sketch2_ab ''zzm'' 2 = 611"
    by (simp_all add: cell_index_def example_hash_def sketch2_ab_def)
  have m: "spec_max (map (snd \<circ> snd)
          [(97 :: nat, \<lparr>fingerprint = 352, count = 3\<rparr>, Some 3),
           (354, \<lparr>fingerprint = 96, count = 1\<rparr>, None),
           (611, \<lparr>fingerprint = 96, count = 3\<rparr>, None)]) = 3"
    by (simp add: spec_max_def)
  have c0: "bs ! 97 = \<lparr>fingerprint = 352, count = 3\<rparr>" using cells [rule_format, of 0] d ci by simp
  have c1: "bs ! 354 = \<lparr>fingerprint = 96, count = 1\<rparr>" using cells [rule_format, of 1] d ci by simp
  have c2: "bs ! 611 = \<lparr>fingerprint = 96, count = 3\<rparr>" using cells [rule_format, of 2] d ci by simp
  have "\<forall>i < depth sketch2_ab. 98 \<noteq> cell_index example_hash sketch2_ab ''zzm'' i"
    using ci by (simp add: d All_less_Suc eval_nat_numeral)
  moreover have "98 < length bs" using len by (simp add: sketch2_ab_def)
  ultimately have c3: "bs ! 98 = buckets sketch2_ab ! 98" using frame by blast
  have o: "buckets sketch2_ab ! 97 = \<lparr>fingerprint = 96, count = 3\<rparr>" by (simp add: sketch2_ab_def)
  show ?thesis
    using hk_ok_sketch2_ab all m c0 c1 c2 c3 o Sample_zzm by auto
qed

text \<open>
  Claim C2: after the matrix update of a \<open>Sample\<close> on a well-formed sketch, with
  \<open>maxCount\<close> the count it produced. The root of the heap holds the minimum count. If
  \<open>maxCount\<close> is below it, the call returns \<open>false\<close> and the heap is the one before.
  Otherwise the call returns \<open>true\<close>; if some slot holds the flow, the count of the
  first such slot is set to \<open>maxCount\<close> and \<open>heap.Fix\<close> runs from that slot; if none
  does, the root becomes \<open>{flow, maxCount}\<close> and \<open>heap.Fix\<close> runs from the root. In
  both cases \<open>heap.Fix\<close> restores the heap property and only permutes the entries.
\<close>

theorem Sample_tracker_update:
  assumes "hk_ok hk"
  shows "\<exists>bs m pos'.
     sample_rows H hk flow (fingerprint_of H flow) incr rnd 0 (buckets hk) 0 pos = Inr (bs, m, pos') \<and>
     (\<forall>e \<in> set (heap hk). Count (heap hk ! 0) \<le> Count e) \<and>
     (m < Count (heap hk ! 0) \<longrightarrow>
        Sample H hk flow incr rnd pos = Inr (False, hk\<lparr>buckets := bs\<rparr>, pos')) \<and>
     (Count (heap hk ! 0) \<le> m \<and> flow \<in> Flow ` set (heap hk) \<longrightarrow>
        (\<exists>i < length (heap hk). Flow (heap hk ! i) = flow \<and> (\<forall>k < i. Flow (heap hk ! k) \<noteq> flow) \<and>
           Sample H hk flow incr rnd pos =
             Inr (True, hk\<lparr>buckets := bs,
                    heap := Fix ((heap hk)[i := (heap hk ! i)\<lparr>Count := m\<rparr>]) i\<rparr>, pos') \<and>
           heap_ok (Fix ((heap hk)[i := (heap hk ! i)\<lparr>Count := m\<rparr>]) i) \<and>
           mset (Fix ((heap hk)[i := (heap hk ! i)\<lparr>Count := m\<rparr>]) i) =
             mset ((heap hk)[i := (heap hk ! i)\<lparr>Count := m\<rparr>]))) \<and>
     (Count (heap hk ! 0) \<le> m \<and> flow \<notin> Flow ` set (heap hk) \<longrightarrow>
        Sample H hk flow incr rnd pos =
          Inr (True, hk\<lparr>buckets := bs, heap := Fix ((heap hk)[0 := \<lparr>Flow = flow, Count = m\<rparr>]) 0\<rparr>, pos') \<and>
        heap_ok (Fix ((heap hk)[0 := \<lparr>Flow = flow, Count = m\<rparr>]) 0) \<and>
        mset (Fix ((heap hk)[0 := \<lparr>Flow = flow, Count = m\<rparr>]) 0) =
          mset ((heap hk)[0 := \<lparr>Flow = flow, Count = m\<rparr>]))"
proof -
  obtain bs m pos' where rows:
    "sample_rows H hk flow (fingerprint_of H flow) incr rnd 0 (buckets hk) 0 pos = Inr (bs, m, pos')"
    using sample_rows_total [OF assms] by blast
  have ne: "heap hk \<noteq> []" and ok: "heap_ok (heap hk)" using assms by (simp_all add: hk_ok_def)
  note res = Sample_result [OF ne rows]
  have root: "\<forall>e \<in> set (heap hk). Count (heap hk ! 0) \<le> Count e"
    using heap_root_min [OF ok] by (auto simp: in_set_conv_nth)
  have rej: "m < Count (heap hk ! 0) \<longrightarrow>
        Sample H hk flow incr rnd pos = Inr (False, hk\<lparr>buckets := bs\<rparr>, pos')"
    using res by auto
  have found: "\<exists>i < length (heap hk). Flow (heap hk ! i) = flow \<and> (\<forall>k < i. Flow (heap hk ! k) \<noteq> flow) \<and>
           Sample H hk flow incr rnd pos =
             Inr (True, hk\<lparr>buckets := bs,
                    heap := Fix ((heap hk)[i := (heap hk ! i)\<lparr>Count := m\<rparr>]) i\<rparr>, pos') \<and>
           heap_ok (Fix ((heap hk)[i := (heap hk ! i)\<lparr>Count := m\<rparr>]) i) \<and>
           mset (Fix ((heap hk)[i := (heap hk ! i)\<lparr>Count := m\<rparr>]) i) =
             mset ((heap hk)[i := (heap hk ! i)\<lparr>Count := m\<rparr>])"
    if le: "Count (heap hk ! 0) \<le> m" and mem: "flow \<in> Flow ` set (heap hk)"
  proof -
    from Find_cases [of "heap hk" flow] mem
    obtain i where i: "i < length (heap hk)" "Find (heap hk) flow = int i" "Flow (heap hk ! i) = flow"
      "\<forall>k < i. Flow (heap hk ! k) \<noteq> flow" by blast
    have "Sample H hk flow incr rnd pos =
        Inr (True, hk\<lparr>buckets := bs, heap := Fix ((heap hk)[i := (heap hk ! i)\<lparr>Count := m\<rparr>]) i\<rparr>, pos')"
      using res le i(2) by simp
    then show ?thesis
      using i Fix_update [OF ok i(1), of "(heap hk ! i)\<lparr>Count := m\<rparr>"] by blast
  qed
  have fresh: "Sample H hk flow incr rnd pos =
          Inr (True, hk\<lparr>buckets := bs, heap := Fix ((heap hk)[0 := \<lparr>Flow = flow, Count = m\<rparr>]) 0\<rparr>, pos') \<and>
        heap_ok (Fix ((heap hk)[0 := \<lparr>Flow = flow, Count = m\<rparr>]) 0) \<and>
        mset (Fix ((heap hk)[0 := \<lparr>Flow = flow, Count = m\<rparr>]) 0) =
          mset ((heap hk)[0 := \<lparr>Flow = flow, Count = m\<rparr>])"
    if le: "Count (heap hk ! 0) \<le> m" and nmem: "flow \<notin> Flow ` set (heap hk)"
  proof -
    have "Find (heap hk) flow = -1"
      using Find_cases [of "heap hk" flow] nmem by (metis image_eqI nth_mem)
    then have "Sample H hk flow incr rnd pos =
        Inr (True, hk\<lparr>buckets := bs, heap := Fix ((heap hk)[0 := \<lparr>Flow = flow, Count = m\<rparr>]) 0\<rparr>, pos')"
      using res le by simp
    moreover have "0 < length (heap hk)" using ne by simp
    ultimately show ?thesis
      using Fix_update [OF ok, of 0 "\<lparr>Flow = flow, Count = m\<rparr>"] by blast
  qed
  show ?thesis
    using rows root rej found fresh by blast
qed


theorem Sample_tracker_update_witness:
  "hk_ok sketch2_ab \<and> hk_ok sketch2_abc \<and> Count (heap sketch2_ab ! 0) = 2 \<and>
   Sample example_hash sketch2_ab ''c'' 1 (\<lambda>_. 0) 0 = Inr (False, sketch2_abc, 0) \<and>
   heap sketch2_abc = heap sketch2_ab \<and>
   Sample example_hash sketch2_ab ''a'' 1 (\<lambda>_. 0) 0 = Inr (True, sketch2_aab, 0) \<and>
   heap_ok (heap sketch2_aab) \<and>
   Sample example_hash sketch2_abc ''c'' 1 (\<lambda>_. 0) 0 = Inr (True, sketch2_abcc, 0) \<and>
   heap_ok (heap sketch2_abcc)"
proof -
  have a: "heap sketch2_abc = heap sketch2_ab"
  proof -
    from Sample_tracker_update [OF hk_ok_sketch2_ab, of example_hash "''c''" 1 "\<lambda>_. 0" 0]
    obtain bs m pos' where
      rej: "m < Count (heap sketch2_ab ! 0) \<longrightarrow>
        Sample example_hash sketch2_ab ''c'' 1 (\<lambda>_. 0) 0 = Inr (False, sketch2_ab\<lparr>buckets := bs\<rparr>, pos')"
      and adm: "Count (heap sketch2_ab ! 0) \<le> m \<and> ''c'' \<notin> Flow ` set (heap sketch2_ab) \<longrightarrow>
        Sample example_hash sketch2_ab ''c'' 1 (\<lambda>_. 0) 0 =
          Inr (True, sketch2_ab\<lparr>buckets := bs,
                 heap := Fix ((heap sketch2_ab)[0 := \<lparr>Flow = ''c'', Count = m\<rparr>]) 0\<rparr>, pos')"
      by blast
    have "''c'' \<notin> Flow ` set (heap sketch2_ab)" by (simp add: sketch2_ab_def)
    then have "m < Count (heap sketch2_ab ! 0)"
      using adm Sample_c_rejected by (cases "m < Count (heap sketch2_ab ! 0)") auto
    then have "sketch2_abc = sketch2_ab\<lparr>buckets := bs\<rparr>"
      using rej Sample_c_rejected by simp
    then have "heap sketch2_abc = heap (sketch2_ab\<lparr>buckets := bs\<rparr>)" by simp
    then show ?thesis by simp
  qed
  have b: "heap_ok (heap sketch2_aab)"
  proof -
    from Sample_tracker_update [OF hk_ok_sketch2_ab, of example_hash "''a''" 1 "\<lambda>_. 0" 0]
    obtain bs m pos' where
      rej: "m < Count (heap sketch2_ab ! 0) \<longrightarrow>
        Sample example_hash sketch2_ab ''a'' 1 (\<lambda>_. 0) 0 = Inr (False, sketch2_ab\<lparr>buckets := bs\<rparr>, pos')"
      and adm: "Count (heap sketch2_ab ! 0) \<le> m \<and> ''a'' \<in> Flow ` set (heap sketch2_ab) \<longrightarrow>
        (\<exists>i < length (heap sketch2_ab).
           Sample example_hash sketch2_ab ''a'' 1 (\<lambda>_. 0) 0 =
             Inr (True, sketch2_ab\<lparr>buckets := bs,
                    heap := Fix ((heap sketch2_ab)[i := (heap sketch2_ab ! i)\<lparr>Count := m\<rparr>]) i\<rparr>, pos') \<and>
           heap_ok (Fix ((heap sketch2_ab)[i := (heap sketch2_ab ! i)\<lparr>Count := m\<rparr>]) i))"
      by blast
    have "''a'' \<in> Flow ` set (heap sketch2_ab)" by (simp add: sketch2_ab_def)
    moreover have "Count (heap sketch2_ab ! 0) \<le> m"
      using rej Sample_a_found by (cases "m < Count (heap sketch2_ab ! 0)") auto
    ultimately obtain i where
      s: "Sample example_hash sketch2_ab ''a'' 1 (\<lambda>_. 0) 0 =
             Inr (True, sketch2_ab\<lparr>buckets := bs,
                    heap := Fix ((heap sketch2_ab)[i := (heap sketch2_ab ! i)\<lparr>Count := m\<rparr>]) i\<rparr>, pos')"
      and h: "heap_ok (Fix ((heap sketch2_ab)[i := (heap sketch2_ab ! i)\<lparr>Count := m\<rparr>]) i)"
      using adm by blast
    have "sketch2_aab = sketch2_ab\<lparr>buckets := bs,
                    heap := Fix ((heap sketch2_ab)[i := (heap sketch2_ab ! i)\<lparr>Count := m\<rparr>]) i\<rparr>"
      using s Sample_a_found by simp
    then have "heap sketch2_aab = Fix ((heap sketch2_ab)[i := (heap sketch2_ab ! i)\<lparr>Count := m\<rparr>]) i"
      by (metis HeavyKeeper.select_convs(5) HeavyKeeper.surjective HeavyKeeper.update_convs(5))
    then show ?thesis using h by simp
  qed
  have c: "heap_ok (heap sketch2_abcc)"
    by (simp add: heap_ok_def sketch2_abcc_def All_less_Suc)
  have d: "Count (heap sketch2_ab ! 0) = 2" by (simp add: sketch2_ab_def)
  show ?thesis
    using hk_ok_sketch2_ab hk_ok_sketch2_abc a b c d Sample_c_rejected Sample_a_found Sample_c_admitted
    by simp
qed

subsection \<open>Failure\<close>

lemma New_error_iff:
  "(\<exists>msg. New Log k dec = Inl (InvalidArgument msg)) \<longleftrightarrow> k < 1 \<or> dec \<le> 0 \<or> 1 < dec"
  by (auto simp: New_def Let_def)

lemma New_valid:
  assumes "1 \<le> k" and "0 < dec" and "dec \<le> 1"
  shows "\<exists>hk. New Log k dec = Inr hk \<and> length (heap hk) = nat k \<and> set (heap hk) = {FlowCount0} \<and>
           length (buckets hk) = depth hk * width hk \<and> 256 \<le> width hk \<and> 3 \<le> depth hk \<and>
           int (width hk) =
             max 256 (trunc (f64 (f64 (real_of_int k) * Log (f64 (real_of_int k)))))"
proof -
  define w0 where "w0 = trunc (f64 (f64 (real_of_int k) * Log (f64 (real_of_int k))))"
  define d0 where "d0 = trunc (Log (f64 (real_of_int k)))"
  define w where "w = (if w0 < 256 then 256 else w0)"
  define d where "d = (if d0 < 3 then 3 else d0)"
  have new: "New Log k dec = Inr \<lparr>decay = dec, depth = nat d, width = nat w,
       buckets = replicate (nat d * nat w) bucket0, heap = replicate (nat k) FlowCount0\<rparr>"
    using assms by (simp add: New_def Let_def w_def d_def w0_def d0_def)
  have "0 < nat k" using assms by simp
  then have h: "set (replicate (nat k) FlowCount0) = {FlowCount0}" by simp
  have w: "256 \<le> nat w" "int (nat w) = max 256 w0" by (auto simp: w_def max_def)
  have d: "3 \<le> nat d" by (auto simp: d_def)
  show ?thesis
    unfolding new using w d h by (simp add: w0_def)
qed

text \<open>
  Up to \<open>K = 2 ^ 27\<close> the width is below \<open>2 ^ 32\<close>, and the sketch that \<open>New\<close>
  returns has the shape that \<open>Sample\<close> relies on.
\<close>

lemma hk_ok_New:
  assumes "1 \<le> k" and "k \<le> 2 ^ 27" and "0 < dec" and "dec \<le> 1"
    and "Log_near Log (real_of_int k)"
  shows "\<exists>hk. New Log k dec = Inr hk \<and> hk_ok hk"
proof -
  define x where "x = real_of_int k"
  define L where "L = Log x"
  have kf: "f64 x = x" unfolding x_def using assms(1,2) by (intro f64_of_int) simp_all
  obtain hk where hk: "New Log k dec = Inr hk" "length (heap hk) = nat k" "set (heap hk) = {FlowCount0}"
      "length (buckets hk) = depth hk * width hk" "256 \<le> width hk"
      "int (width hk) = max 256 (trunc (f64 (x * L)))"
    using New_valid [OF assms(1,3,4), of Log] unfolding x_def [symmetric] kf L_def [symmetric] by blast
  have x1: "1 \<le> x" using assms by (simp add: x_def)
  have "real_of_int k \<le> real_of_int (2 ^ 27)" using assms(2) by (simp only: of_int_le_iff)
  then have kr: "x \<le> 2 ^ 27" by (simp add: x_def)
  have p: "ln ((2 :: real) ^ 27) = real 27 * ln 2" by (rule ln_realpow)
  have "ln x \<le> ln ((2 :: real) ^ 27)" using x1 kr by (subst ln_le_cancel_iff) simp_all
  also have "\<dots> \<le> 27 * 1" unfolding p using ln_le_minus_one [of 2] by simp
  finally have l: "ln x \<le> 27" by simp
  have l0: "0 \<le> ln x" using x1 by simp
  have e: "ln x / 2 ^ 50 \<le> 1" using l by simp
  have e1: "ln x / 2 ^ 50 \<le> ln x" using l0 by (simp add: field_simps)
  note b = Log_near_bounds [OF assms(5), folded x_def, folded L_def]
  have L0: "0 \<le> L" using b(1) e1 by linarith
  have L28: "L \<le> 28" using b(2) e l by linarith
  have "x * L \<le> 2 ^ 27 * 28" using x1 kr L0 L28 by (intro mult_mono) simp_all
  then have "f64 (x * L) \<le> f64 (2 ^ 27 * 28)" using x1 L0 by (intro f64_mono) simp_all
  moreover have "f64 (2 ^ 27 * 28) = 3758096384" by (simp add: f64_eval)
  moreover have "0 \<le> f64 (x * L)" using x1 L0 by (intro f64_nonneg) simp
  ultimately have "trunc (f64 (x * L)) < 2 ^ 32" by (simp add: trunc_def floor_less_iff)
  then have "int (width hk) < 2 ^ 32" using hk(6) by simp
  then have w: "width hk < 2 ^ 32" by (metis of_nat_less_iff of_nat_numeral of_nat_power)
  have "unat (of_nat (width hk) :: uint32) = width hk" using w by (simp add: unat_of_nat)
  then have nz: "(of_nat (width hk) :: uint32) \<noteq> 0" using hk(5) by auto
  have all0: "heap hk ! j = FlowCount0" if "j < length (heap hk)" for j
    using nth_mem [OF that] hk(3) by simp
  have "heap_ok (heap hk)"
    unfolding heap_ok_def
  proof (intro allI impI)
    fix j assume j: "j < length (heap hk)" "0 < j"
    then have "(j - 1) div 2 < length (heap hk)" by simp
    then show "Count (heap hk ! ((j - 1) div 2)) \<le> Count (heap hk ! j)"
      using all0 j(1) by simp
  qed
  moreover have "heap hk \<noteq> []" using hk(3) by auto
  ultimately show ?thesis using hk nz by (auto simp: hk_ok_def)
qed

lemma hk_ok_New_rn:
  assumes "1 \<le> k" and "k \<le> 2 ^ 27" and "0 < dec" and "dec \<le> 1"
  shows "\<exists>hk. New Log_rn k dec = Inr hk \<and> hk_ok hk"
  using assms by (intro hk_ok_New Log_rn_near_int)

subsection \<open>A sketch whose width is a multiple of \<open>2 ^ 32\<close>\<close>

lemma exp_Taylor_bounds:
  fixes x :: real
  assumes "0 \<le> x" and "x \<le> 1"
  shows "(\<Sum>m<n. x ^ m / fact m) \<le> exp x"
    and "exp x \<le> (\<Sum>m<n. x ^ m / fact m) + 3 * x ^ n / fact n"
proof -
  obtain t where t: "\<bar>t\<bar> \<le> \<bar>x\<bar>" "exp x = (\<Sum>m<n. x ^ m / fact m) + exp t / fact n * x ^ n"
    using Maclaurin_exp_le [of x n] by blast
  have r0: "0 \<le> exp t / fact n * x ^ n" using assms(1) by simp
  show "(\<Sum>m<n. x ^ m / fact m) \<le> exp x" using t(2) r0 by simp
  have "t \<le> 1" using t(1) assms by simp
  then have "exp t \<le> exp 1" by simp
  also have "\<dots> \<le> 3" by (rule exp_le)
  finally have "exp t / fact n * x ^ n \<le> 3 / fact n * x ^ n"
    using assms(1) by (intro mult_right_mono divide_right_mono) simp_all
  then show "exp x \<le> (\<Sum>m<n. x ^ m / fact m) + 3 * x ^ n / fact n" using t(2) by simp
qed

lemma exp_double_le:
  fixes x u v :: real
  assumes "exp x \<le> u" and "u\<^sup>2 \<le> v"
  shows "exp (2 * x) \<le> v"
proof -
  have "exp (2 * x) = (exp x)\<^sup>2" by (rule exp_double)
  also have "\<dots> \<le> u\<^sup>2" using assms(1) by (intro power_mono) simp_all
  finally show ?thesis using assms(2) by simp
qed

lemma exp_double_ge:
  fixes x l v :: real
  assumes "l \<le> exp x" and "0 \<le> l" and "v \<le> l\<^sup>2"
  shows "v \<le> exp (2 * x)"
proof -
  have "l\<^sup>2 \<le> (exp x)\<^sup>2" using assms(1,2) by (intro power_mono) simp_all
  also have "\<dots> = exp (2 * x)" by (rule exp_double [symmetric])
  finally show ?thesis using assms(3) by simp
qed

text \<open>
  For \<open>K = 1034570302\<close> the product \<open>K * ln K\<close> is about \<open>21474836480.9947\<close>. The
  logarithm is enclosed between \<open>21474836480.99 / K\<close> and \<open>21474836480.999 / K\<close>:
  the exponential at \<open>y = x / 2 ^ 16\<close> by its Taylor polynomial, then sixteen
  squarings, each rounded outwards at 26 decimals.
\<close>

lemma exp_wide_upper:
  "exp (2147483648099 / 103457030200 :: real) \<le> 1034570302"
proof -
  define y :: real where "y = 31673052994237814606424 / 100000000000000000000000000"
  have y01: "0 \<le> y" "y \<le> 1" by (simp_all add: y_def)
  have "(\<Sum>m<5. y ^ m / fact m) + 3 * y ^ 5 / fact 5 \<le> 100031678069435273728949119 / 100000000000000000000000000"
    by (simp add: y_def eval_nat_numeral sum.lessThan_Suc)
  then have s0: "exp y \<le> 100031678069435273728949119 / 100000000000000000000000000"
    using exp_Taylor_bounds(2) [OF y01, of 5] by simp
  have s1: "exp (2 * y) \<le> 100063366173871378918134524 / 100000000000000000000000000"
    by (rule exp_double_le [OF s0]) (simp add: power_divide)
  have s2: "exp (2 * (2 * y)) \<le> 100126772500462668814512143 / 100000000000000000000000000"
    by (rule exp_double_le [OF s1]) (simp add: power_divide)
  have s3: "exp (2 * (2 * (2 * y))) \<le> 100253705713594073202672182 / 100000000000000000000000000"
    by (rule exp_double_le [OF s2]) (simp add: power_divide)
  have s4: "exp (2 * (2 * (2 * (2 * y)))) \<le> 100508055093079249184347057 / 100000000000000000000000000"
    by (rule exp_double_le [OF s3]) (simp add: power_divide)
  have s5: "exp (2 * (2 * (2 * (2 * (2 * y))))) \<le> 101018691385934536014218650 / 100000000000000000000000000"
    by (rule exp_double_le [OF s4]) (simp add: power_divide)
  have s6: "exp (2 * (2 * (2 * (2 * (2 * (2 * y)))))) \<le> 102047760093266844286429170 / 100000000000000000000000000"
    by (rule exp_double_le [OF s5]) (simp add: power_divide)
  have s7: "exp (2 * (2 * (2 * (2 * (2 * (2 * (2 * y))))))) \<le> 104137453400529450920964947 / 100000000000000000000000000"
    by (rule exp_double_le [OF s6]) (simp add: power_divide)
  have s8: "exp (2 * (2 * (2 * (2 * (2 * (2 * (2 * (2 * y)))))))) \<le> 108446092007474429012194289 / 100000000000000000000000000"
    by (rule exp_double_le [OF s7]) (simp add: power_divide)
  have s9: "exp (2 * (2 * (2 * (2 * (2 * (2 * (2 * (2 * (2 * y))))))))) \<le> 117605548716936092326636491 / 100000000000000000000000000"
    by (rule exp_double_le [OF s8]) (simp add: power_divide)
  have s10: "exp (2 * (2 * (2 * (2 * (2 * (2 * (2 * (2 * (2 * (2 * y)))))))))) \<le> 138310650890116285521027196 / 100000000000000000000000000"
    by (rule exp_double_le [OF s9]) (simp add: power_divide)
  have s11: "exp (2 * (2 * (2 * (2 * (2 * (2 * (2 * (2 * (2 * (2 * (2 * y))))))))))) \<le> 191298361496476248443047221 / 100000000000000000000000000"
    by (rule exp_double_le [OF s10]) (simp add: power_divide)
  have s12: "exp (2 * (2 * (2 * (2 * (2 * (2 * (2 * (2 * (2 * (2 * (2 * (2 * y)))))))))))) \<le> 365950631112365064516561358 / 100000000000000000000000000"
    by (rule exp_double_le [OF s11]) (simp add: power_divide)
  have s13: "exp (2 * (2 * (2 * (2 * (2 * (2 * (2 * (2 * (2 * (2 * (2 * (2 * (2 * y))))))))))))) \<le> 1339198644115382935370085856 / 100000000000000000000000000"
    by (rule exp_double_le [OF s12]) (simp add: power_divide)
  have s14: "exp (2 * (2 * (2 * (2 * (2 * (2 * (2 * (2 * (2 * (2 * (2 * (2 * (2 * (2 * y)))))))))))))) \<le> 17934530084004800771900304549 / 100000000000000000000000000"
    by (rule exp_double_le [OF s13]) (simp add: power_divide)
  have s15: "exp (2 * (2 * (2 * (2 * (2 * (2 * (2 * (2 * (2 * (2 * (2 * (2 * (2 * (2 * (2 * y))))))))))))))) \<le> 3216473693340732462321448906131 / 100000000000000000000000000"
    by (rule exp_double_le [OF s14]) (simp add: power_divide)
  have s16: "exp (2 * (2 * (2 * (2 * (2 * (2 * (2 * (2 * (2 * (2 * (2 * (2 * (2 * (2 * (2 * (2 * y)))))))))))))))) \<le> 103457030199529722519322068433076135 / 100000000000000000000000000"
    by (rule exp_double_le [OF s15]) (simp add: power_divide)
  have "(2147483648099 / 103457030200 :: real) \<le> 2 * (2 * (2 * (2 * (2 * (2 * (2 * (2 * (2 * (2 * (2 * (2 * (2 * (2 * (2 * (2 * y)))))))))))))))" by (simp add: y_def)
  then have "exp (2147483648099 / 103457030200 :: real) \<le> exp (2 * (2 * (2 * (2 * (2 * (2 * (2 * (2 * (2 * (2 * (2 * (2 * (2 * (2 * (2 * (2 * y))))))))))))))))" by (simp only: exp_le_cancel_iff)
  also have "\<dots> \<le> 103457030199529722519322068433076135 / 100000000000000000000000000" by (rule s16)
  also have "\<dots> \<le> 1034570302" by simp
  finally show ?thesis .
qed

lemma exp_wide_lower:
  "(1034570302 :: real) < exp (21474836480999 / 1034570302000)"
proof -
  define y :: real where "y = 31673052994251088629590 / 100000000000000000000000000"
  have y01: "0 \<le> y" "y \<le> 1" by (simp_all add: y_def)
  have "100031678069435286999208498 / 100000000000000000000000000 \<le> (\<Sum>m<5. y ^ m / fact m)"
    by (simp add: y_def eval_nat_numeral sum.lessThan_Suc)
  then have s0: "100031678069435286999208498 / 100000000000000000000000000 \<le> exp y"
    using exp_Taylor_bounds(1) [OF y01, of 5] by simp
  have s1: "100063366173871405467060805 / 100000000000000000000000000 \<le> exp (2 * y)"
    by (rule exp_double_ge [OF s0]) (simp_all add: power_divide)
  have s2: "100126772500462721946010781 / 100000000000000000000000000 \<le> exp (2 * (2 * y))"
    by (rule exp_double_ge [OF s1]) (simp_all add: power_divide)
  have s3: "100253705713594179600381716 / 100000000000000000000000000 \<le> exp (2 * (2 * (2 * y)))"
    by (rule exp_double_ge [OF s2]) (simp_all add: power_divide)
  have s4: "100508055093079462519640260 / 100000000000000000000000000 \<le> exp (2 * (2 * (2 * (2 * y))))"
    by (rule exp_double_ge [OF s3]) (simp_all add: power_divide)
  have s5: "101018691385934964852526700 / 100000000000000000000000000 \<le> exp (2 * (2 * (2 * (2 * (2 * y)))))"
    by (rule exp_double_ge [OF s4]) (simp_all add: power_divide)
  have s6: "102047760093267710700123076 / 100000000000000000000000000 \<le> exp (2 * (2 * (2 * (2 * (2 * (2 * y))))))"
    by (rule exp_double_ge [OF s5]) (simp_all add: power_divide)
  have s7: "104137453400531219232500491 / 100000000000000000000000000 \<le> exp (2 * (2 * (2 * (2 * (2 * (2 * (2 * y)))))))"
    by (rule exp_double_ge [OF s6]) (simp_all add: power_divide)
  have s8: "108446092007478111961396894 / 100000000000000000000000000 \<le> exp (2 * (2 * (2 * (2 * (2 * (2 * (2 * (2 * y))))))))"
    by (rule exp_double_ge [OF s7]) (simp_all add: power_divide)
  have s9: "117605548716944080355598181 / 100000000000000000000000000 \<le> exp (2 * (2 * (2 * (2 * (2 * (2 * (2 * (2 * (2 * y)))))))))"
    by (rule exp_double_ge [OF s8]) (simp_all add: power_divide)
  have s10: "138310650890135074251611322 / 100000000000000000000000000 \<le> exp (2 * (2 * (2 * (2 * (2 * (2 * (2 * (2 * (2 * (2 * y))))))))))"
    by (rule exp_double_ge [OF s9]) (simp_all add: power_divide)
  have s11: "191298361496528222074177013 / 100000000000000000000000000 \<le> exp (2 * (2 * (2 * (2 * (2 * (2 * (2 * (2 * (2 * (2 * (2 * y)))))))))))"
    by (rule exp_double_ge [OF s10]) (simp_all add: power_divide)
  have s12: "365950631112563913926084413 / 100000000000000000000000000 \<le> exp (2 * (2 * (2 * (2 * (2 * (2 * (2 * (2 * (2 * (2 * (2 * (2 * y))))))))))))"
    by (rule exp_double_ge [OF s11]) (simp_all add: power_divide)
  have s13: "1339198644116838316708311913 / 100000000000000000000000000 \<le> exp (2 * (2 * (2 * (2 * (2 * (2 * (2 * (2 * (2 * (2 * (2 * (2 * (2 * y)))))))))))))"
    by (rule exp_double_ge [OF s12]) (simp_all add: power_divide)
  have s14: "17934530084043781666196789070 / 100000000000000000000000000 \<le> exp (2 * (2 * (2 * (2 * (2 * (2 * (2 * (2 * (2 * (2 * (2 * (2 * (2 * (2 * y))))))))))))))"
    by (rule exp_double_ge [OF s13]) (simp_all add: power_divide)
  have s15: "3216473693354714542750698357145 / 100000000000000000000000000 \<le> exp (2 * (2 * (2 * (2 * (2 * (2 * (2 * (2 * (2 * (2 * (2 * (2 * (2 * (2 * (2 * y)))))))))))))))"
    by (rule exp_double_ge [OF s14]) (simp_all add: power_divide)
  have s16: "103457030200429182396901126531092591 / 100000000000000000000000000 \<le> exp (2 * (2 * (2 * (2 * (2 * (2 * (2 * (2 * (2 * (2 * (2 * (2 * (2 * (2 * (2 * (2 * y))))))))))))))))"
    by (rule exp_double_ge [OF s15]) (simp_all add: power_divide)
  have "2 * (2 * (2 * (2 * (2 * (2 * (2 * (2 * (2 * (2 * (2 * (2 * (2 * (2 * (2 * (2 * y))))))))))))))) \<le> (21474836480999 / 1034570302000 :: real)" by (simp add: y_def)
  then have "exp (2 * (2 * (2 * (2 * (2 * (2 * (2 * (2 * (2 * (2 * (2 * (2 * (2 * (2 * (2 * (2 * y)))))))))))))))) \<le> exp (21474836480999 / 1034570302000 :: real)" by (simp only: exp_le_cancel_iff)
  moreover have "(1034570302 :: real) < 103457030200429182396901126531092591 / 100000000000000000000000000" by simp
  ultimately show ?thesis using s16 by linarith
qed

lemma ln_wide:
  "2147483648099 / 103457030200 \<le> ln (1034570302 :: real)"
  "ln (1034570302 :: real) < 21474836480999 / 1034570302000"
proof -
  show "2147483648099 / 103457030200 \<le> ln (1034570302 :: real)"
    using exp_wide_upper by (subst ln_ge_iff) simp_all
  have "exp (ln (1034570302 :: real)) < exp (21474836480999 / 1034570302000)"
    using exp_wide_lower by simp
  then show "ln (1034570302 :: real) < 21474836480999 / 1034570302000"
    by (simp only: exp_less_cancel_iff)
qed

text \<open>
  With a logarithm within its error the rounded product lies between
  \<open>21474836480.98\<close> and \<open>21474836480.9999\<close>, and \<open>int(...)\<close> gives
  \<open>21474836480 = 5 * 2 ^ 32\<close>.
\<close>

lemma New_wide_near:
  assumes "Log_near Log 1034570302"
  shows "New Log 1034570302 (9 / 10) = Inr sketch_wide"
proof -
  let ?l = "ln (1034570302 :: real)"
  define L where "L = Log 1034570302"
  note b = Log_near_bounds [OF assms, folded L_def]
  have l21: "?l \<le> 21" using ln_wide(2) by simp
  have e: "?l / 2 ^ 50 \<le> 1 / 10 ^ 13" using l21 by simp
  have e0: "0 \<le> ?l / 2 ^ 50" by simp
  have lo: "2147483648099 / 103457030200 - 1 / 10 ^ 13 \<le> L" using b(1) e ln_wide(1) by linarith
  have hi: "L \<le> 21474836480999 / 1034570302000 + 1 / 10 ^ 13" using b(2) e0 e ln_wide(2) by linarith
  have "20 \<le> L" using lo by simp
  moreover have "L < 21" using hi by simp
  ultimately have d: "trunc L = 20" by (simp add: trunc_def floor_eq_iff)
  have z1: "2147483648098 / 100 \<le> 1034570302 * L" using lo by simp
  have z2: "1034570302 * L \<le> 214748364809999 / 10000" using hi by simp
  have "f64 (2147483648098 / 100) \<le> f64 (1034570302 * L)" by (rule f64_mono [OF _ z1]) simp
  moreover have "21474836480 \<le> f64 (2147483648098 / 100)" by (simp add: f64_eval)
  moreover have "f64 (1034570302 * L) \<le> f64 (214748364809999 / 10000)"
    using z1 by (intro f64_mono [OF _ z2]) simp
  moreover have "f64 (214748364809999 / 10000) < 21474836481" by (simp add: f64_eval)
  ultimately have w: "trunc (f64 (1034570302 * L)) = 21474836480"
    by (simp add: trunc_def floor_eq_iff)
  have k: "f64 1034570302 = 1034570302" by (simp add: f64_eval)
  show ?thesis using w d by (simp add: New_def Let_def sketch_wide_def k L_def)
qed

lemma New_wide: "New Log_rn 1034570302 (9 / 10) = Inr sketch_wide"
  by (rule New_wide_near) (simp add: Log_rn_near)

lemma spec_width_wide: "spec_width 1034570302 = 21474836481"
proof -
  let ?l = "ln (1034570302 :: real)"
  have "2147483648099 / 100 \<le> 1034570302 * ?l" using ln_wide(1) by simp
  moreover have "1034570302 * ?l \<le> 21474836480999 / 1000" using ln_wide(2) by simp
  ultimately have "round (1034570302 * ?l) = 21474836481" by (intro round_unique) simp_all
  then show ?thesis by (simp add: spec_width_def)
qed

text \<open>
  Claim C7 fails on the code for a sketch whose width is a multiple of \<open>2 ^ 32\<close>:
  \<open>slot\<close> converts the width to \<open>uint32\<close>, which gives zero, and divides by it.
  \<open>New(1034570302, 0.9)\<close> has valid arguments and builds such a sketch; every
  \<open>Sample\<close> on it panics in its first row. (For \<open>K\<close> up to \<open>2 ^ 27\<close> and in every
  sketch with \<open>hk_ok\<close> no operation fails: \<open>New_error_iff\<close>, \<open>hk_ok_New\<close>,
  \<open>Sample_total\<close>, \<open>hk_ok_DecayAll\<close>, \<open>hk_ok_Reset\<close>.)
\<close>

theorem Sample_divides_by_zero:
  "New Log_rn 1034570302 (9 / 10) = Inr sketch_wide \<and>
   width sketch_wide = 5 * 2 ^ 32 \<and>
   Sample H sketch_wide flow incr rnd pos = Inl (RuntimeError ''integer divide by zero'')"
proof -
  have h: "heap sketch_wide \<noteq> []" by (simp add: sketch_wide_def)
  have "sample_rows H sketch_wide flow (fingerprint_of H flow) incr rnd 0 (buckets sketch_wide) 0 pos =
      Inl (RuntimeError ''integer divide by zero'')"
    by (subst sample_rows.simps) (simp add: sketch_wide_def slot_def)
  then have "Sample H sketch_wide flow incr rnd pos = Inl (RuntimeError ''integer divide by zero'')"
    using h by (simp add: Sample_def Min_heap_nonempty)
  moreover have "width sketch_wide = 5 * 2 ^ 32" by (simp add: sketch_wide_def)
  ultimately show ?thesis using New_wide by simp
qed

subsection \<open>A width above the exact product\<close>

text \<open>
  For \<open>K = 109890925\<close> the product \<open>K * ln K\<close> is about \<open>2034630348.99999996\<close>,
  and the \<open>float64\<close> product is \<open>2034630349\<close>: the width is one above the exact
  product with its fraction dropped. The logarithm is enclosed within \<open>4 / 10 ^ 17\<close>,
  as above with a Taylor polynomial of degree five and 30 decimals, which determines
  its nearest \<open>float64\<close>.
\<close>

lemma exp_109890925_upper:
  "exp (18514998840896097241 / 1000000000000000000 :: real) \<le> 109890925"
proof -
  define y :: real where "y = 282516461805665546279907227 / 1000000000000000000000000000000"
  have y01: "0 \<le> y" "y \<le> 1" by (simp_all add: y_def)
  have "(\<Sum>m<6. y ^ m / fact m) + 3 * y ^ 6 / fact 6 \<le> 1000282556373339727782346138104 / 1000000000000000000000000000000"
    by (simp add: y_def eval_nat_numeral sum.lessThan_Suc)
  then have s0: "exp y \<le> 1000282556373339727782346138104 / 1000000000000000000000000000000"
    using exp_Taylor_bounds(2) [OF y01, of 6] by simp
  have s1: "exp (2 * y) \<le> 1000565192584783570464321365740 / 1000000000000000000000000000000"
    by (rule exp_double_le [OF s0]) (simp add: power_divide)
  have s2: "exp (2 * (2 * y)) \<le> 1001130704612225035262130297208 / 1000000000000000000000000000000"
    by (rule exp_double_le [OF s1]) (simp add: power_divide)
  have s3: "exp (2 * (2 * (2 * y))) \<le> 1002262687717370177491622151769 / 1000000000000000000000000000000"
    by (rule exp_double_le [OF s2]) (simp add: power_divide)
  have s4: "exp (2 * (2 * (2 * (2 * y)))) \<le> 1004530495190446692847460247196 / 1000000000000000000000000000000"
    by (rule exp_double_le [OF s3]) (simp add: power_divide)
  have s5: "exp (2 * (2 * (2 * (2 * (2 * y))))) \<le> 1009081515767564046310614346034 / 1000000000000000000000000000000"
    by (rule exp_double_le [OF s4]) (simp add: power_divide)
  have s6: "exp (2 * (2 * (2 * (2 * (2 * (2 * y)))))) \<le> 1018245505463764607010444334943 / 1000000000000000000000000000000"
    by (rule exp_double_le [OF s5]) (simp add: power_divide)
  have s7: "exp (2 * (2 * (2 * (2 * (2 * (2 * (2 * y))))))) \<le> 1036823909397157478148030474933 / 1000000000000000000000000000000"
    by (rule exp_double_le [OF s6]) (simp add: power_divide)
  have s8: "exp (2 * (2 * (2 * (2 * (2 * (2 * (2 * (2 * y)))))))) \<le> 1075003819097605019121780137792 / 1000000000000000000000000000000"
    by (rule exp_double_le [OF s7]) (simp add: power_divide)
  have s9: "exp (2 * (2 * (2 * (2 * (2 * (2 * (2 * (2 * (2 * y))))))))) \<le> 1155633211074436297628490088168 / 1000000000000000000000000000000"
    by (rule exp_double_le [OF s8]) (simp add: power_divide)
  have s10: "exp (2 * (2 * (2 * (2 * (2 * (2 * (2 * (2 * (2 * (2 * y)))))))))) \<le> 1335488118538212636292268133748 / 1000000000000000000000000000000"
    by (rule exp_double_le [OF s9]) (simp add: power_divide)
  have s11: "exp (2 * (2 * (2 * (2 * (2 * (2 * (2 * (2 * (2 * (2 * (2 * y))))))))))) \<le> 1783528514756735085741232177646 / 1000000000000000000000000000000"
    by (rule exp_double_le [OF s10]) (simp add: power_divide)
  have s12: "exp (2 * (2 * (2 * (2 * (2 * (2 * (2 * (2 * (2 * (2 * (2 * (2 * y)))))))))))) \<le> 3180973962950365402500092818644 / 1000000000000000000000000000000"
    by (rule exp_double_le [OF s11]) (simp add: power_divide)
  have s13: "exp (2 * (2 * (2 * (2 * (2 * (2 * (2 * (2 * (2 * (2 * (2 * (2 * (2 * y))))))))))))) \<le> 10118595352968152644380084315649 / 1000000000000000000000000000000"
    by (rule exp_double_le [OF s12]) (simp add: power_divide)
  have s14: "exp (2 * (2 * (2 * (2 * (2 * (2 * (2 * (2 * (2 * (2 * (2 * (2 * (2 * (2 * y)))))))))))))) \<le> 102385971917108693599838979698209 / 1000000000000000000000000000000"
    by (rule exp_double_le [OF s13]) (simp add: power_divide)
  have s15: "exp (2 * (2 * (2 * (2 * (2 * (2 * (2 * (2 * (2 * (2 * (2 * (2 * (2 * (2 * (2 * y))))))))))))))) \<le> 10482887245410970054610354636504166 / 1000000000000000000000000000000"
    by (rule exp_double_le [OF s14]) (simp add: power_divide)
  have s16: "exp (2 * (2 * (2 * (2 * (2 * (2 * (2 * (2 * (2 * (2 * (2 * (2 * (2 * (2 * (2 * (2 * y)))))))))))))))) \<le> 109890924999999995512272576513658704174 / 1000000000000000000000000000000"
    by (rule exp_double_le [OF s15]) (simp add: power_divide)
  have "(18514998840896097241 / 1000000000000000000 :: real) \<le> 2 * (2 * (2 * (2 * (2 * (2 * (2 * (2 * (2 * (2 * (2 * (2 * (2 * (2 * (2 * (2 * y)))))))))))))))" by (simp add: y_def)
  then have "exp (18514998840896097241 / 1000000000000000000 :: real) \<le> exp (2 * (2 * (2 * (2 * (2 * (2 * (2 * (2 * (2 * (2 * (2 * (2 * (2 * (2 * (2 * (2 * y))))))))))))))))" by (simp only: exp_le_cancel_iff)
  also have "\<dots> \<le> 109890924999999995512272576513658704174 / 1000000000000000000000000000000" by (rule s16)
  also have "\<dots> \<le> 109890925" by simp
  finally show ?thesis .
qed

lemma exp_109890925_lower:
  "(109890925 :: real) < exp (18514998840896097321 / 1000000000000000000)"
proof -
  define y :: real where "y = 282516461805665547500610351 / 1000000000000000000000000000000"
  have y01: "0 \<le> y" "y \<le> 1" by (simp_all add: y_def)
  have "1000282556373339727783565067533 / 1000000000000000000000000000000 \<le> (\<Sum>m<6. y ^ m / fact m)"
    by (simp add: y_def eval_nat_numeral sum.lessThan_Suc)
  then have s0: "1000282556373339727783565067533 / 1000000000000000000000000000000 \<le> exp y"
    using exp_Taylor_bounds(1) [OF y01, of 6] by simp
  have s1: "1000565192584783570466759913429 / 1000000000000000000000000000000 \<le> exp (2 * y)"
    by (rule exp_double_ge [OF s0]) (simp_all add: power_divide)
  have s2: "1001130704612225035267010149083 / 1000000000000000000000000000000 \<le> exp (2 * (2 * y))"
    by (rule exp_double_ge [OF s1]) (simp_all add: power_divide)
  have s3: "1002262687717370177501392890860 / 1000000000000000000000000000000 \<le> exp (2 * (2 * (2 * y)))"
    by (rule exp_double_ge [OF s2]) (simp_all add: power_divide)
  have s4: "1004530495190446692867045941640 / 1000000000000000000000000000000 \<le> exp (2 * (2 * (2 * (2 * y))))"
    by (rule exp_double_ge [OF s3]) (simp_all add: power_divide)
  have s5: "1009081515767564046349963200710 / 1000000000000000000000000000000 \<le> exp (2 * (2 * (2 * (2 * (2 * y)))))"
    by (rule exp_double_ge [OF s4]) (simp_all add: power_divide)
  have s6: "1018245505463764607089856738782 / 1000000000000000000000000000000 \<le> exp (2 * (2 * (2 * (2 * (2 * (2 * y))))))"
    by (rule exp_double_ge [OF s5]) (simp_all add: power_divide)
  have s7: "1036823909397157478309753121506 / 1000000000000000000000000000000 \<le> exp (2 * (2 * (2 * (2 * (2 * (2 * (2 * y)))))))"
    by (rule exp_double_ge [OF s6]) (simp_all add: power_divide)
  have s8: "1075003819097605019457135951106 / 1000000000000000000000000000000 \<le> exp (2 * (2 * (2 * (2 * (2 * (2 * (2 * (2 * y))))))))"
    by (rule exp_double_ge [OF s7]) (simp_all add: power_divide)
  have s9: "1155633211074436298349507648305 / 1000000000000000000000000000000 \<le> exp (2 * (2 * (2 * (2 * (2 * (2 * (2 * (2 * (2 * y)))))))))"
    by (rule exp_double_ge [OF s8]) (simp_all add: power_divide)
  have s10: "1335488118538212637958731810271 / 1000000000000000000000000000000 \<le> exp (2 * (2 * (2 * (2 * (2 * (2 * (2 * (2 * (2 * (2 * y))))))))))"
    by (rule exp_double_ge [OF s9]) (simp_all add: power_divide)
  have s11: "1783528514756735090192317057589 / 1000000000000000000000000000000 \<le> exp (2 * (2 * (2 * (2 * (2 * (2 * (2 * (2 * (2 * (2 * (2 * y)))))))))))"
    by (rule exp_double_ge [OF s10]) (simp_all add: power_divide)
  have s12: "3180973962950365418377366428605 / 1000000000000000000000000000000 \<le> exp (2 * (2 * (2 * (2 * (2 * (2 * (2 * (2 * (2 * (2 * (2 * (2 * y))))))))))))"
    by (rule exp_double_ge [OF s11]) (simp_all add: power_divide)
  have s13: "10118595352968152745390472227498 / 1000000000000000000000000000000 \<le> exp (2 * (2 * (2 * (2 * (2 * (2 * (2 * (2 * (2 * (2 * (2 * (2 * (2 * y)))))))))))))"
    by (rule exp_double_ge [OF s12]) (simp_all add: power_divide)
  have s14: "102385971917108695644005463150899 / 1000000000000000000000000000000 \<le> exp (2 * (2 * (2 * (2 * (2 * (2 * (2 * (2 * (2 * (2 * (2 * (2 * (2 * (2 * y))))))))))))))"
    by (rule exp_double_ge [OF s13]) (simp_all add: power_divide)
  have s15: "10482887245410970473198298973868072 / 1000000000000000000000000000000 \<le> exp (2 * (2 * (2 * (2 * (2 * (2 * (2 * (2 * (2 * (2 * (2 * (2 * (2 * (2 * (2 * y)))))))))))))))"
    by (rule exp_double_ge [OF s14]) (simp_all add: power_divide)
  have s16: "109890925000000004288293022067557234338 / 1000000000000000000000000000000 \<le> exp (2 * (2 * (2 * (2 * (2 * (2 * (2 * (2 * (2 * (2 * (2 * (2 * (2 * (2 * (2 * (2 * y))))))))))))))))"
    by (rule exp_double_ge [OF s15]) (simp_all add: power_divide)
  have "2 * (2 * (2 * (2 * (2 * (2 * (2 * (2 * (2 * (2 * (2 * (2 * (2 * (2 * (2 * (2 * y))))))))))))))) \<le> (18514998840896097321 / 1000000000000000000 :: real)" by (simp add: y_def)
  then have "exp (2 * (2 * (2 * (2 * (2 * (2 * (2 * (2 * (2 * (2 * (2 * (2 * (2 * (2 * (2 * (2 * y)))))))))))))))) \<le> exp (18514998840896097321 / 1000000000000000000 :: real)" by (simp only: exp_le_cancel_iff)
  moreover have "(109890925 :: real) < 109890925000000004288293022067557234338 / 1000000000000000000000000000000" by simp
  ultimately show ?thesis using s16 by linarith
qed

lemma ln_109890925:
  "18514998840896097241 / 1000000000000000000 \<le> ln (109890925 :: real)"
  "ln (109890925 :: real) < 18514998840896097321 / 1000000000000000000"
proof -
  show "18514998840896097241 / 1000000000000000000 \<le> ln (109890925 :: real)"
    using exp_109890925_upper by (subst ln_ge_iff) simp_all
  have "exp (ln (109890925 :: real)) < exp (18514998840896097321 / 1000000000000000000)"
    using exp_109890925_lower by simp
  then show "ln (109890925 :: real) < 18514998840896097321 / 1000000000000000000"
    by (simp only: exp_less_cancel_iff)
qed

lemma Log_rn_109890925: "Log_rn 109890925 = 1302877216884763 / 70368744177664"
proof -
  have "f64 (18514998840896097241 / 1000000000000000000) \<le> f64 (ln (109890925 :: real))"
    using ln_109890925(1) by (intro f64_mono) simp_all
  moreover have "f64 (ln (109890925 :: real)) \<le> f64 (18514998840896097321 / 1000000000000000000)"
    using ln_109890925(2) by (intro f64_mono) simp_all
  moreover have "f64 (18514998840896097241 / 1000000000000000000) = 1302877216884763 / 70368744177664" by (simp add: f64_eval)
  moreover have "f64 (18514998840896097321 / 1000000000000000000) = 1302877216884763 / 70368744177664" by (simp add: f64_eval)
  ultimately show ?thesis by (simp add: Log_rn_def)
qed

lemma New_width_above_exact:
  "\<exists>hk. New Log_rn 109890925 (9 / 10) = Inr hk \<and> width hk = 2034630349 \<and> depth hk = 18"
  "\<lfloor>109890925 * ln (109890925 :: real)\<rfloor> = 2034630348"
proof -
  have k: "f64 109890925 = 109890925" by (simp add: f64_eval)
  have "f64 (109890925 * Log_rn 109890925) = 2034630349"
    unfolding Log_rn_109890925 by (simp add: f64_eval)
  then have w: "trunc (f64 (109890925 * Log_rn 109890925)) = 2034630349" by (simp add: trunc_def)
  have d: "trunc (Log_rn 109890925) = 18"
    unfolding Log_rn_109890925 by (simp add: trunc_def)
  show "\<exists>hk. New Log_rn 109890925 (9 / 10) = Inr hk \<and> width hk = 2034630349 \<and> depth hk = 18"
    by (simp add: New_def Let_def k w d)
  have "2034630348 \<le> 109890925 * ln (109890925 :: real)" using ln_109890925(1) by simp
  moreover have "109890925 * ln (109890925 :: real) < 2034630349" using ln_109890925(2) by simp
  ultimately show "\<lfloor>109890925 * ln (109890925 :: real)\<rfloor> = 2034630348"
    by (intro floor_unique) simp_all
qed

text \<open>
  The amended claim C8 at two values of \<open>K\<close>. For \<open>K = 1034570302\<close> the width is
  \<open>21474836480\<close>, where rounding to the nearest integer gives \<open>21474836481\<close>, and
  the depth is \<open>20\<close>. For \<open>K = 109890925\<close> the width is \<open>2034630349\<close>, the
  truncated \<open>float64\<close> product, one above the truncated exact product, and the depth
  is \<open>18\<close>.
\<close>

theorem New_dimensions_trunc_witness:
  "(1 :: int) \<le> 1034570302 \<and> (1034570302 :: int) \<le> 2 ^ 32 \<and>
   (1 :: int) \<le> 109890925 \<and> (109890925 :: int) \<le> 2 ^ 32 \<and>
   (0 :: real) < 9 / 10 \<and> (9 / 10 :: real) \<le> 1 \<and>
   New Log_rn 1034570302 (9 / 10) = Inr sketch_wide \<and>
   int (width sketch_wide) = max 256 (trunc (f64 (1034570302 * Log_rn 1034570302))) \<and>
   int (depth sketch_wide) = max 3 (trunc (Log_rn 1034570302)) \<and>
   width sketch_wide = 21474836480 \<and> depth sketch_wide = 20 \<and>
   spec_width 1034570302 = 21474836481 \<and>
   Log_near Log_rn 1034570302 \<and>
   \<bar>int (width sketch_wide) - max 256 \<lfloor>1034570302 * ln (1034570302 :: real)\<rfloor>\<bar> \<le> 1 \<and>
   \<bar>int (depth sketch_wide) - max 3 \<lfloor>ln (1034570302 :: real)\<rfloor>\<bar> \<le> 1 \<and>
   (\<exists>hk. New Log_rn 109890925 (9 / 10) = Inr hk \<and>
      int (width hk) = max 256 (trunc (f64 (109890925 * Log_rn 109890925))) \<and>
      width hk = 2034630349 \<and>
      int (depth hk) = max 3 (trunc (Log_rn 109890925)) \<and> depth hk = 18 \<and>
      \<lfloor>109890925 * ln (109890925 :: real)\<rfloor> = 2034630348 \<and>
      Log_near Log_rn 109890925 \<and>
      \<bar>int (width hk) - max 256 \<lfloor>109890925 * ln (109890925 :: real)\<rfloor>\<bar> \<le> 1)"
proof -
  have n: "Log_near Log_rn 1034570302" by (rule Log_rn_near) simp
  have "\<exists>hk. New Log_rn 1034570302 (9 / 10) = Inr hk \<and>
           int (width hk) = max 256 (trunc (f64 (1034570302 * Log_rn 1034570302))) \<and>
           int (depth hk) = max 3 (trunc (Log_rn 1034570302)) \<and>
           length (buckets hk) = depth hk * width hk \<and>
           length (heap hk) = nat 1034570302 \<and> decay hk = 9 / 10 \<and>
           (Log_near Log_rn 1034570302 \<longrightarrow>
              \<bar>int (width hk) - max 256 \<lfloor>1034570302 * ln (1034570302 :: real)\<rfloor>\<bar> \<le> 1 \<and>
              \<bar>int (depth hk) - max 3 \<lfloor>ln (1034570302 :: real)\<rfloor>\<bar> \<le> 1)"
    using New_dimensions_trunc [of 1034570302 "9 / 10" Log_rn] by simp
  then obtain hk where hk: "New Log_rn 1034570302 (9 / 10) = Inr hk"
      and w: "int (width hk) = max 256 (trunc (f64 (1034570302 * Log_rn 1034570302)))"
      and d: "int (depth hk) = max 3 (trunc (Log_rn 1034570302))"
      and nr: "Log_near Log_rn 1034570302 \<longrightarrow>
              \<bar>int (width hk) - max 256 \<lfloor>1034570302 * ln (1034570302 :: real)\<rfloor>\<bar> \<le> 1 \<and>
              \<bar>int (depth hk) - max 3 \<lfloor>ln (1034570302 :: real)\<rfloor>\<bar> \<le> 1"
    by blast
  have eq: "hk = sketch_wide" using hk New_wide by simp
  have one: "int (width sketch_wide) = max 256 (trunc (f64 (1034570302 * Log_rn 1034570302))) \<and>
           int (depth sketch_wide) = max 3 (trunc (Log_rn 1034570302)) \<and>
           \<bar>int (width sketch_wide) - max 256 \<lfloor>1034570302 * ln (1034570302 :: real)\<rfloor>\<bar> \<le> 1 \<and>
           \<bar>int (depth sketch_wide) - max 3 \<lfloor>ln (1034570302 :: real)\<rfloor>\<bar> \<le> 1"
    using w d nr n unfolding eq by blast
  have dims: "width sketch_wide = 21474836480 \<and> depth sketch_wide = 20"
    by (simp add: sketch_wide_def)
  have n2: "Log_near Log_rn 109890925" by (rule Log_rn_near) simp
  have "\<exists>hk. New Log_rn 109890925 (9 / 10) = Inr hk \<and>
           int (width hk) = max 256 (trunc (f64 (109890925 * Log_rn 109890925))) \<and>
           int (depth hk) = max 3 (trunc (Log_rn 109890925)) \<and>
           length (buckets hk) = depth hk * width hk \<and>
           length (heap hk) = nat 109890925 \<and> decay hk = 9 / 10 \<and>
           (Log_near Log_rn 109890925 \<longrightarrow>
              \<bar>int (width hk) - max 256 \<lfloor>109890925 * ln (109890925 :: real)\<rfloor>\<bar> \<le> 1 \<and>
              \<bar>int (depth hk) - max 3 \<lfloor>ln (109890925 :: real)\<rfloor>\<bar> \<le> 1)"
    using New_dimensions_trunc [of 109890925 "9 / 10" Log_rn] by simp
  then obtain hk2 where hk2: "New Log_rn 109890925 (9 / 10) = Inr hk2"
      and w2: "int (width hk2) = max 256 (trunc (f64 (109890925 * Log_rn 109890925)))"
      and d2: "int (depth hk2) = max 3 (trunc (Log_rn 109890925))"
      and nr2: "Log_near Log_rn 109890925 \<longrightarrow>
              \<bar>int (width hk2) - max 256 \<lfloor>109890925 * ln (109890925 :: real)\<rfloor>\<bar> \<le> 1 \<and>
              \<bar>int (depth hk2) - max 3 \<lfloor>ln (109890925 :: real)\<rfloor>\<bar> \<le> 1"
    by blast
  obtain hk3 where hk3: "New Log_rn 109890925 (9 / 10) = Inr hk3"
      and v: "width hk3 = 2034630349" "depth hk3 = 18"
    using New_width_above_exact(1) by blast
  have eq2: "hk3 = hk2" using hk2 hk3 by simp
  have two: "\<exists>hk. New Log_rn 109890925 (9 / 10) = Inr hk \<and>
      int (width hk) = max 256 (trunc (f64 (109890925 * Log_rn 109890925))) \<and>
      width hk = 2034630349 \<and>
      int (depth hk) = max 3 (trunc (Log_rn 109890925)) \<and> depth hk = 18 \<and>
      \<lfloor>109890925 * ln (109890925 :: real)\<rfloor> = 2034630348 \<and>
      Log_near Log_rn 109890925 \<and>
      \<bar>int (width hk) - max 256 \<lfloor>109890925 * ln (109890925 :: real)\<rfloor>\<bar> \<le> 1"
    using hk2 w2 d2 nr2 n2 v New_width_above_exact(2) unfolding eq2 by blast
  have "(1 :: int) \<le> 1034570302 \<and> (1034570302 :: int) \<le> 2 ^ 32 \<and>
   (1 :: int) \<le> 109890925 \<and> (109890925 :: int) \<le> 2 ^ 32 \<and>
   (0 :: real) < 9 / 10 \<and> (9 / 10 :: real) \<le> 1" by simp
  then show ?thesis using one dims n New_wide spec_width_wide two by blast
qed

subsection \<open>The repository's tests, replayed\<close>

text \<open>
  The tests of the repository on the model, with \<open>example_hash\<close> (under which the
  flows of the tests select different cells, so that no draw is taken), \<open>Log_rn\<close>, the
  floats of the literals \<open>0.3\<close> and \<open>0.9\<close>, and the results the tests expect. After
  the first \<open>DecayAll(0.9)\<close> of \<open>TestDecayAll\<close> the counts are \<open>6, 3, 1\<close>: the float
  product of \<open>70\<close> and \<open>1 - 0.9\<close> is below \<open>7\<close>.
\<close>

lemma Test_HeavyKeeper_zero: "New Log_rn 5 (9 / 10) = Inr (sketch_small 5) \<and> Top (sketch_small 5) = []"
  by (simp add: New_small Top_all_zero sketch_small_def FlowCount0_def)

lemma replicate_5: "replicate 5 x = [x, x, x, x, x]"
  by (simp add: eval_nat_numeral)

lemma Test_HeavyKeeper_below_k:
  "map_sum id (\<lambda>(adms, hk, pos). (adms, Top hk))
     (Sample_all example_hash (sketch_small 5)
        [(''c'', 1), (''b'', 5), (''a'', 10), (''d'', 25)] (\<lambda>_. 0) 0) =
   Inr ([True, True, True, True],
        [\<lparr>Flow = ''d'', Count = 25\<rparr>, \<lparr>Flow = ''a'', Count = 10\<rparr>,
         \<lparr>Flow = ''b'', Count = 5\<rparr>, \<lparr>Flow = ''c'', Count = 1\<rparr>])"
  by (simp add: run_defs sketch_small_def replicate_5 Top_def TopInto_def sort_Stable_def
      reverse_byCount_def)

lemma Test_HeavyKeeper_above_k:
  "map_sum id (\<lambda>(adms, hk, pos). (adms, Top hk))
     (Sample_all example_hash (sketch_small 5)
        [(''c'', 1), (''b'', 5), (''a'', 10), (''d'', 25), (''f'', 3), (''g'', 20), (''h'', 100), (''i'', 2)]
        (\<lambda>_. 0) 0) =
   Inr ([True, True, True, True, True, True, True, False],
        [\<lparr>Flow = ''h'', Count = 100\<rparr>, \<lparr>Flow = ''d'', Count = 25\<rparr>,
         \<lparr>Flow = ''g'', Count = 20\<rparr>, \<lparr>Flow = ''a'', Count = 10\<rparr>,
         \<lparr>Flow = ''b'', Count = 5\<rparr>])"
  by (simp add: run_defs sketch_small_def replicate_5 Top_def TopInto_def sort_Stable_def
      reverse_byCount_def word_le_nat_alt)

lemma Test_Sample_returnValue:
  "map_sum id (\<lambda>(adms, hk, pos). (adms, heap hk))
     (Sample_all example_hash (sketch_small 2)
        [(''a'', 1), (''a'', 1), (''a'', 1), (''b'', 1), (''b'', 1), (''c'', 1), (''c'', 1)] (\<lambda>_. 0) 0) =
   Inr ([True, True, True, True, True, False, True],
        [\<lparr>Flow = ''c'', Count = 2\<rparr>, \<lparr>Flow = ''a'', Count = 3\<rparr>])"
  by (simp add: run_defs sketch_small_def replicate_2 word_le_nat_alt)

lemma scale_u32_0: "scale_u32 q 0 = 0"
  by (simp add: scale_u32_def trunc_def f64_0)

lemma lit_03: "0 < f64 (3 / 10)" "f64 (3 / 10) \<le> 1"
  by (simp_all add: f64_eval)

lemma lit_09: "0 < f64 (9 / 10)" "f64 (9 / 10) \<le> 1"
  by (simp_all add: f64_eval)

lemma scale_03:
  "scale_u32 (f64 (1 - f64 (3 / 10))) 3 = 2" "scale_u32 (f64 (1 - f64 (3 / 10))) 6 = 4"
  "scale_u32 (f64 (1 - f64 (3 / 10))) 13 = 9" "scale_u32 (f64 (1 - f64 (3 / 10))) 25 = 17"
  "scale_u32 (f64 (1 - f64 (3 / 10))) 50 = 35" "scale_u32 (f64 (1 - f64 (3 / 10))) 100 = 70"
  by (simp_all add: scale_u32_def trunc_def f64_eval)

lemma scale_09:
  "scale_u32 (f64 (1 - f64 (9 / 10))) 2 = 0" "scale_u32 (f64 (1 - f64 (9 / 10))) 4 = 0"
  "scale_u32 (f64 (1 - f64 (9 / 10))) 9 = 0" "scale_u32 (f64 (1 - f64 (9 / 10))) 17 = 1"
  "scale_u32 (f64 (1 - f64 (9 / 10))) 35 = 3" "scale_u32 (f64 (1 - f64 (9 / 10))) 70 = 6"
  "scale_u32 (f64 (1 - f64 (9 / 10))) 1 = 0" "scale_u32 (f64 (1 - f64 (9 / 10))) 3 = 0"
  "scale_u32 (f64 (1 - f64 (9 / 10))) 6 = 0"
  by (simp_all add: scale_u32_def trunc_def f64_eval)

lemma Test_DecayAll:
  "map_sum id (\<lambda>(adms, hk, pos).
       (Top (DecayAll hk (f64 (3 / 10))),
        Top (DecayAll (DecayAll hk (f64 (3 / 10))) (f64 (9 / 10))),
        Top (DecayAll (DecayAll (DecayAll hk (f64 (3 / 10))) (f64 (9 / 10))) (f64 (9 / 10)))))
     (Sample_all example_hash (sketch_small 5)
        [(''a'', 3), (''b'', 6), (''c'', 13), (''d'', 25), (''e'', 50), (''f'', 100)] (\<lambda>_. 0) 0) =
   Inr ([\<lparr>Flow = ''f'', Count = 70\<rparr>, \<lparr>Flow = ''e'', Count = 35\<rparr>,
         \<lparr>Flow = ''d'', Count = 17\<rparr>, \<lparr>Flow = ''c'', Count = 9\<rparr>,
         \<lparr>Flow = ''b'', Count = 4\<rparr>],
        [\<lparr>Flow = ''f'', Count = 6\<rparr>, \<lparr>Flow = ''e'', Count = 3\<rparr>, \<lparr>Flow = ''d'', Count = 1\<rparr>],
        [])"
  by (simp add: run_defs sketch_small_def replicate_5 Top_def TopInto_def sort_Stable_def
      reverse_byCount_def word_le_nat_alt DecayAll_scale lit_03 lit_09 scale_03 scale_09 scale_u32_0)

lemma Test_Reset:
  "map_sum id (\<lambda>(adms, hk, pos). Top (Reset hk))
     (Sample_all example_hash (sketch_small 5) [(''a'', 1), (''b'', 2), (''c'', 3)] (\<lambda>_. 0) 0) = Inr []"
  by (simp add: run_defs sketch_small_def replicate_5 Top_Reset)

end
